theory Spec2Isabelle
  imports Main "HOL-Library.Word"
begin

unbundle bit_operations_syntax

section \<open>The string hash table of stdfn.c\<close>

text \<open>
  The model follows \<^verbatim>\<open>src/src/stdfn.c\<close>: \<^verbatim>\<open>isprime\<close>, \<^verbatim>\<open>htab_create\<close>,
  \<^verbatim>\<open>htab_destroy\<close> and \<^verbatim>\<open>htab_hash\<close>. The sizes, hash values and indices of
  the source are \<^verbatim>\<open>uint32_t\<close>, modelled as 32-bit words whose arithmetic wraps around.
\<close>

subsection \<open>Data model\<close>

type_synonym uint32_t = "32 word"

text \<open>
  Modelled from the spec: the declarations of the two structs come from rufus.h, which
  is not under src/. Their fields are the ones stdfn.c uses; the tag has 32 bits in the
  spec, and the source stores \<^verbatim>\<open>uint32_t\<close> values in \<^verbatim>\<open>used\<close> and \<^verbatim>\<open>size\<close> and
  compares \<^verbatim>\<open>filled\<close> with \<^verbatim>\<open>size\<close>.

  An entry of the slot array: \<open>used\<close> is the tag (zero means unused), \<open>str\<close> the owned
  copy of the key, \<open>None\<close> being the NULL pointer. No function modelled here reads or
  writes any other field of an entry.
\<close>

record htab_entry =
  used :: uint32_t
  str :: "string option"

text \<open>
  The table handle. \<open>table\<close> is the pointer to the slot array (\<open>None\<close> is NULL), the
  list holding the allocated entries; \<open>size_htab\<close> is the field \<^verbatim>\<open>size\<close> of the source.
\<close>

record htab_table =
  table :: "htab_entry list option"
  size_htab :: uint32_t
  filled :: uint32_t

text \<open>
  What C leaves undefined is a value of the model: a division by zero, an access to the
  slot array outside its allocation, and a loop that never exits.
\<close>

datatype fault = DivideByZero | OutOfBounds | NoReturn

text \<open>
  A C string is the bytes up to the first NUL. A key is given as a list of bytes; the
  bytes after a NUL byte, if the list has one, are never read.
\<close>

definition cstring :: "string \<Rightarrow> string" where
  "cstring s = takeWhile (\<lambda>c. c \<noteq> CHR 0x00) s"

text \<open>
  Modelled from the spec: the macro \<^verbatim>\<open>safe_strcmp\<close> comes from rufus.h, which is not
  under src/. The spec calls it an exact string compare; the table compares its result
  with 0 only, so the model returns whether the two strings are equal. In the header a
  NULL argument stands for the literal \<^verbatim>\<open><NULL>\<close>.
\<close>

definition safe_strcmp :: "string option \<Rightarrow> string option \<Rightarrow> bool" where
  "safe_strcmp str1 str2 =
     (cstring (case str1 of None \<Rightarrow> ''<NULL>'' | Some s \<Rightarrow> s) =
      cstring (case str2 of None \<Rightarrow> ''<NULL>'' | Some s \<Rightarrow> s))"

text \<open>
  The measure of the loops that step an odd or even counter by 2: how far the counter
  is from the value (\<open>stop\<close> or \<open>stop + 1\<close>, by parity) at which the loop must end.
\<close>

definition steps_left :: "nat \<Rightarrow> nat \<Rightarrow> nat \<Rightarrow> nat" where
  "steps_left N stop u =
     (let t = (if even u = even stop then stop else stop + 1)
      in if u \<le> t then t - u else N + t - u)"

subsection \<open>isprime\<close>

text \<open>
  The loop \<^verbatim>\<open>while((divider * divider < number) && (number % divider != 0)) divider += 2;\<close>
  returning the divider it stops at. The product wraps around, and the remainder is
  evaluated only when the first test holds.
\<close>

function isprime_loop :: "uint32_t \<Rightarrow> uint32_t \<Rightarrow> fault + uint32_t" where
  "isprime_loop number divider =
     (if divider * divider < number then
        (if divider = 0 then Inl DivideByZero
         else if number mod divider \<noteq> 0 then isprime_loop number (divider + 2)
         else Inr divider)
      else Inr divider)"
  by pat_completeness auto

termination
proof (relation "measure (\<lambda>(number, divider). steps_left 4294967296 0 (unat divider))")
  show "wf (measure (\<lambda>(number, divider). steps_left 4294967296 0 (unat divider)))"
    by simp
next
  fix number divider :: uint32_t
  assume "divider \<noteq> 0" "number mod divider \<noteq> 0"
  then have "divider \<noteq> 1"
    by auto
  with \<open>divider \<noteq> 0\<close> have "unat divider \<noteq> 0" "unat divider \<noteq> 1"
    by (simp_all add: word_unat_eq_iff)
  moreover have "unat divider < 4294967296"
    using unsigned_less [of divider] by simp
  moreover have "unat (divider + 2) =
      (if unat divider + 2 < 4294967296 then unat divider + 2 else unat divider + 2 - 4294967296)"
    using unat_plus_if' [of divider 2] by simp
  ultimately have "steps_left 4294967296 0 (unat (divider + 2))
      < steps_left 4294967296 0 (unat divider)"
    unfolding steps_left_def Let_def by (auto elim!: evenE oddE)
  then show "((number, divider + 2), number, divider)
      \<in> measure (\<lambda>(number, divider). steps_left 4294967296 0 (unat divider))"
    by simp
qed

declare isprime_loop.simps [simp del]

text \<open>
  \<^verbatim>\<open>isprime\<close> itself: the divider starts at 3 and the function returns
  \<^verbatim>\<open>number % divider != 0\<close>.
\<close>

definition isprime :: "uint32_t \<Rightarrow> fault + bool" where
  "isprime number =
     (case isprime_loop number 3 of
        Inl e \<Rightarrow> Inl e
      | Inr divider \<Rightarrow>
          if divider = 0 then Inl DivideByZero else Inr (number mod divider \<noteq> 0))"

subsection \<open>htab\_create\<close>

text \<open>The loop \<^verbatim>\<open>while(!isprime(nel)) nel += 2;\<close> returning the final \<^verbatim>\<open>nel\<close>.\<close>

function htab_create_loop :: "uint32_t \<Rightarrow> fault + uint32_t" where
  "htab_create_loop nel =
     (case isprime nel of
        Inl e \<Rightarrow> Inl e
      | Inr p \<Rightarrow> if p then Inr nel else htab_create_loop (nel + 2))"
  by pat_completeness auto
termination
proof (relation "measure (\<lambda>nel. steps_left 4294967296 1 (unat nel))")
  show "wf (measure (\<lambda>nel. steps_left 4294967296 1 (unat nel)))"
    by simp
next
  fix nel :: uint32_t and p :: bool
  assume "isprime nel = Inr p" "\<not> p"
  moreover have "isprime 1 = Inr True" "isprime 2 = Inr True"
    by (simp_all add: isprime_def isprime_loop.simps)
  ultimately have "nel \<noteq> 1" "nel \<noteq> 2"
    by auto
  then have "unat nel \<noteq> 1" "unat nel \<noteq> 2"
    by (simp_all add: word_unat_eq_iff)
  moreover have "unat nel < 4294967296"
    using unsigned_less [of nel] by simp
  moreover have "unat (nel + 2) =
      (if unat nel + 2 < 4294967296 then unat nel + 2 else unat nel + 2 - 4294967296)"
    using unat_plus_if' [of nel 2] by simp
  ultimately have "steps_left 4294967296 1 (unat (nel + 2)) < steps_left 4294967296 1 (unat nel)"
    unfolding steps_left_def Let_def by (auto elim!: evenE oddE)
  then show "((nel + 2), nel) \<in> measure (\<lambda>nel. steps_left 4294967296 1 (unat nel))"
    by simp
qed

declare htab_create_loop.simps [simp del]

text \<open>
  \<^verbatim>\<open>htab_create\<close>. \<open>calloc_ok\<close> tells whether \<^verbatim>\<open>calloc\<close> returns memory. The handle
  is a pointer, \<open>None\<close> for NULL; the function returns its \<^verbatim>\<open>BOOL\<close> and the handle as
  it leaves it. Modelled from the spec: the macro \<^verbatim>\<open>if_not_assert\<close> comes from rufus.h,
  which is not under src/; as the spec has it, a failed condition is reported and the
  function returns through the macro's block.
\<close>

definition htab_create ::
    "bool \<Rightarrow> uint32_t \<Rightarrow> htab_table option \<Rightarrow> fault + (bool \<times> htab_table option)" where
  "htab_create calloc_ok nel htab =
     (case htab of
        None \<Rightarrow> Inr (False, None)
      | Some h \<Rightarrow>
          if table h \<noteq> None then Inr (False, htab)
          else
            (case htab_create_loop (nel OR 1) of
               Inl e \<Rightarrow> Inl e
             | Inr nel' \<Rightarrow>
                 let h = h\<lparr>size_htab := nel', filled := 0\<rparr> in
                 if calloc_ok
                 then Inr (True, Some (h\<lparr>table :=
                        Some (replicate (unat (size_htab h + 1)) \<lparr>used = 0, str = None\<rparr>)\<rparr>))
                 else Inr (False, Some (h\<lparr>table := None\<rparr>))))"

subsection \<open>htab\_destroy\<close>

text \<open>
  \<^verbatim>\<open>htab_destroy\<close>. The loop reads the entries \<^verbatim>\<open>0 .. size\<close> and frees the strings of
  the used ones; the array is freed after it, so only the handle is left to return.
\<close>

definition htab_destroy :: "htab_table option \<Rightarrow> fault + htab_table option" where
  "htab_destroy htab =
     (case htab of
        None \<Rightarrow> Inr None
      | Some h \<Rightarrow>
          (case table h of
             None \<Rightarrow> Inr htab
           | Some tbl \<Rightarrow>
               if length tbl < unat (size_htab h + 1) then Inl OutOfBounds
               else Inr (Some (h\<lparr>filled := 0, size_htab := 0, table := None\<rparr>))))"

subsection \<open>htab\_hash\<close>

text \<open>
  \<^verbatim>\<open>c = *sz++\<close> reads a \<^verbatim>\<open>char\<close> into an \<^verbatim>\<open>int\<close>; \<^verbatim>\<open>char\<close> is signed on the
  compilers of this program (MSVC and MinGW), so a byte from 128 on is negative, and
  the sum with the unsigned \<^verbatim>\<open>r\<close> takes it modulo \<open>2 ^ 32\<close>.
\<close>

definition char_to_int :: "char \<Rightarrow> uint32_t" where
  "char_to_int c =
     (if (of_char c :: nat) < 128 then of_nat (of_char c) else of_nat (of_char c) - 256)"

text \<open>The loop \<^verbatim>\<open>while ((c = *sz++) != 0) r = c + (r << 6) + (r << 16) - r;\<close>\<close>

fun sdbm :: "string \<Rightarrow> uint32_t \<Rightarrow> uint32_t" where
  "sdbm [] r = r"
| "sdbm (c # sz) r =
     (if c = CHR 0x00 then r
      else sdbm sz (char_to_int c + push_bit 6 r + push_bit 16 r - r))"

text \<open>The main hash value: \<^verbatim>\<open>if (r == 0) ++r;\<close> after the loop.\<close>

definition main_hash :: "string \<Rightarrow> uint32_t" where
  "main_hash s = (let r = sdbm s 0 in if r = 0 then r + 1 else r)"

text \<open>The table hash: \<^verbatim>\<open>hval = r % htab->size; if (hval == 0) ++hval;\<close>\<close>

definition table_hash :: "uint32_t \<Rightarrow> uint32_t \<Rightarrow> uint32_t" where
  "table_hash r sz = (let hval = r mod sz in if hval = 0 then hval + 1 else hval)"

text \<open>
  How the search ends: at an existing entry whose index is returned, or at the index
  for a new entry (the code after \<^verbatim>\<open>// Not found => New entry\<close>).
\<close>

datatype probe_exit = Existing uint32_t | NewEntry uint32_t

text \<open>
  The \<^verbatim>\<open>do ... while (htab->table[idx].used)\<close> loop of the second hash function. The
  table does not change in the loop, so its only state is \<open>idx\<close>, a 32-bit value: a run
  of more than \<open>2 ^ 32\<close> iterations repeats a state and never exits. \<open>n\<close> counts the
  iterations left of that bound, and running out of them is \<open>NoReturn\<close>.
\<close>

fun probe ::
    "nat \<Rightarrow> htab_entry list \<Rightarrow> uint32_t \<Rightarrow> string \<Rightarrow> uint32_t \<Rightarrow> uint32_t \<Rightarrow> uint32_t
      \<Rightarrow> fault + probe_exit" where
  "probe n tbl sz s hval hval2 idx =
     (if n = 0 then Inl NoReturn
      else
        let idx = (if idx \<le> hval2 then sz + idx - hval2 else idx - hval2) in
        if idx = hval then Inr (NewEntry idx)
        else if length tbl \<le> unat idx then Inl OutOfBounds
        else if used (tbl ! unat idx) = hval \<and> safe_strcmp (Some s) (str (tbl ! unat idx))
          then Inr (Existing idx)
        else if used (tbl ! unat idx) \<noteq> 0 then probe (n - 1) tbl sz s hval hval2 idx
        else Inr (NewEntry idx))"

declare probe.simps [simp del]

text \<open>
  The search of \<^verbatim>\<open>htab_hash\<close>, from the computation of \<^verbatim>\<open>hval\<close> to the end of the
  \<^verbatim>\<open>if (htab->table[idx].used)\<close> block.
\<close>

definition htab_search :: "htab_entry list \<Rightarrow> uint32_t \<Rightarrow> string \<Rightarrow> fault + probe_exit" where
  "htab_search tbl sz s =
     (if sz = 0 then Inl DivideByZero
      else
        let hval = table_hash (main_hash s) sz; idx = hval in
        if length tbl \<le> unat idx then Inl OutOfBounds
        else if used (tbl ! unat idx) \<noteq> 0 then
          (if used (tbl ! unat idx) = hval \<and> safe_strcmp (Some s) (str (tbl ! unat idx))
           then Inr (Existing idx)
           else if sz - 2 = 0 then Inl DivideByZero
           else probe 4294967296 tbl sz s hval (1 + hval mod (sz - 2)) idx)
        else Inr (NewEntry idx))"

text \<open>
  \<^verbatim>\<open>htab_hash\<close>. \<open>malloc_ok\<close> tells whether the \<^verbatim>\<open>malloc\<close> of the key's copy returns
  memory. The function returns the index and the handle as it leaves it. Modelled from
  the spec: the macros \<^verbatim>\<open>safe_free\<close> and \<^verbatim>\<open>safe_strlen\<close> come from rufus.h, which is
  not under src/; as the spec has it, the stale string of the slot is freed (its
  pointer is NULL then) and the key is duplicated with its terminator.
\<close>

definition htab_hash ::
    "bool \<Rightarrow> string option \<Rightarrow> htab_table option \<Rightarrow> fault + (uint32_t \<times> htab_table option)" where
  "htab_hash malloc_ok str' htab =
     (case htab of
        None \<Rightarrow> Inr (0, htab)
      | Some h \<Rightarrow>
          (case table h of
             None \<Rightarrow> Inr (0, htab)
           | Some tbl \<Rightarrow>
               (case str' of
                  None \<Rightarrow> Inr (0, htab)
                | Some s \<Rightarrow>
                    (case htab_search tbl (size_htab h) s of
                       Inl e \<Rightarrow> Inl e
                     | Inr (Existing idx) \<Rightarrow> Inr (idx, htab)
                     | Inr (NewEntry idx) \<Rightarrow>
                         if \<not> filled h < size_htab h then Inr (0, htab)
                         else
                           let hval = table_hash (main_hash s) (size_htab h);
                               tbl = tbl[unat idx := \<lparr>used = hval, str = None\<rparr>]
                           in
                             if \<not> malloc_ok then Inr (0, Some (h\<lparr>table := Some tbl\<rparr>))
                             else Inr (idx, Some (h\<lparr>
                               table := Some (tbl[unat idx := \<lparr>used = hval, str = Some (cstring s)\<rparr>]),
                               filled := filled h + 1\<rparr>))))))"

section \<open>Notions of the specification\<close>

subsection \<open>Runs of calls\<close>

text \<open>
  A run of calls of \<^verbatim>\<open>htab_hash\<close> on one handle, each with the outcome of its
  \<^verbatim>\<open>malloc\<close>, collecting the returned indices. A fault ends the run.
\<close>

fun htab_hash_seq ::
    "(bool \<times> string option) list \<Rightarrow> htab_table option
      \<Rightarrow> fault + (uint32_t list \<times> htab_table option)" where
  "htab_hash_seq [] htab = Inr ([], htab)"
| "htab_hash_seq ((malloc_ok, s) # calls) htab =
     (case htab_hash malloc_ok s htab of
        Inl e \<Rightarrow> Inl e
      | Inr (idx, htab') \<Rightarrow>
          (case htab_hash_seq calls htab' of
             Inl e \<Rightarrow> Inl e
           | Inr (idxs, htab'') \<Rightarrow> Inr (idx # idxs, htab'')))"

text \<open>A run of any of the three operations on one handle, keeping the handle only.\<close>

datatype htab_op = Create bool uint32_t | Destroy | Hash bool "string option"

fun htab_do :: "htab_op \<Rightarrow> htab_table option \<Rightarrow> fault + htab_table option" where
  "htab_do (Create calloc_ok nel) htab =
     (case htab_create calloc_ok nel htab of Inl e \<Rightarrow> Inl e | Inr (ok, htab') \<Rightarrow> Inr htab')"
| "htab_do Destroy htab = htab_destroy htab"
| "htab_do (Hash malloc_ok s) htab =
     (case htab_hash malloc_ok s htab of Inl e \<Rightarrow> Inl e | Inr (idx, htab') \<Rightarrow> Inr htab')"

fun htab_run :: "htab_op list \<Rightarrow> htab_table option \<Rightarrow> fault + htab_table option" where
  "htab_run [] htab = Inr htab"
| "htab_run (x # xs) htab =
     (case htab_do x htab of Inl e \<Rightarrow> Inl e | Inr htab' \<Rightarrow> htab_run xs htab')"

text \<open>A handle that was never created (\<^verbatim>\<open>htab_table htab = { 0 }\<close>), and a zeroed entry.\<close>

definition never_created :: htab_table where
  "never_created = \<lparr>table = None, size_htab = 0, filled = 0\<rparr>"

definition empty_entry :: htab_entry where
  "empty_entry = \<lparr>used = 0, str = None\<rparr>"

subsection \<open>Tables\<close>

text \<open>Primality of a natural number, by trial of every candidate divisor.\<close>

definition prime_nat :: "nat \<Rightarrow> bool" where
  "prime_nat p \<longleftrightarrow> 1 < p \<and> (\<forall>m \<in> set [2..<p]. \<not> m dvd p)"

text \<open>
  A live table of capacity at least 3: the slot array is allocated and has one entry
  more than the capacity.
\<close>

definition htab_wf :: "htab_table \<Rightarrow> bool" where
  "htab_wf h \<longleftrightarrow>
     (case table h of None \<Rightarrow> False | Some tbl \<Rightarrow> length tbl = unat (size_htab h) + 1)
     \<and> 3 \<le> size_htab h"

text \<open>
  The invariants of the data model. A slot without a string has the tag zero; a slot
  with a string has the table hash of that string as its tag, which is never zero.
  In a table, slot 0 is unused and \<open>filled\<close> counts the slots with a tag.
\<close>

definition slot_ok :: "uint32_t \<Rightarrow> htab_entry \<Rightarrow> bool" where
  "slot_ok sz e \<longleftrightarrow>
     (case str e of
        None \<Rightarrow> used e = 0
      | Some k \<Rightarrow> used e = table_hash (main_hash k) sz \<and> cstring k = k)"

definition htab_inv :: "htab_table \<Rightarrow> bool" where
  "htab_inv h \<longleftrightarrow>
     (case table h of
        None \<Rightarrow> False
      | Some tbl \<Rightarrow>
          length tbl = unat (size_htab h) + 1 \<and> list_all (slot_ok (size_htab h)) tbl
          \<and> used (tbl ! 0) = 0
          \<and> unat (filled h) = length (filter (\<lambda>e. used e \<noteq> 0) tbl))"

text \<open>The strings a table holds.\<close>

definition htab_keys :: "htab_table \<Rightarrow> string set" where
  "htab_keys h = (case table h of None \<Rightarrow> {} | Some tbl \<Rightarrow> {k. Some k \<in> set (map str tbl)})"

definition filled_le_size :: "htab_table option \<Rightarrow> bool" where
  "filled_le_size htab = (case htab of None \<Rightarrow> True | Some h \<Rightarrow> filled h \<le> size_htab h)"

subsection \<open>The probe sequence\<close>

text \<open>
  The index update of the probe loop on natural numbers (\<open>c\<close> the capacity, \<open>h2\<close> the
  second hash value), and the index after \<open>j\<close> updates from the index \<open>i\<close>.
\<close>

definition probe_next :: "nat \<Rightarrow> nat \<Rightarrow> nat \<Rightarrow> nat" where
  "probe_next c h2 i = (if i \<le> h2 then c + i - h2 else i - h2)"

definition probe_pos :: "nat \<Rightarrow> nat \<Rightarrow> nat \<Rightarrow> nat \<Rightarrow> nat" where
  "probe_pos c h2 i j = (probe_next c h2 ^^ j) i"

text \<open>
  The entry at index \<open>i\<close> is the key \<open>s\<close>; the loop ends at index \<open>i\<close>; and what the
  loop returns when it ends there.
\<close>

definition match_at :: "htab_entry list \<Rightarrow> uint32_t \<Rightarrow> string \<Rightarrow> nat \<Rightarrow> bool" where
  "match_at tbl hval s i \<longleftrightarrow> used (tbl ! i) = hval \<and> safe_strcmp (Some s) (str (tbl ! i))"

definition probe_stops :: "htab_entry list \<Rightarrow> uint32_t \<Rightarrow> string \<Rightarrow> nat \<Rightarrow> bool" where
  "probe_stops tbl hval s i \<longleftrightarrow> i = unat hval \<or> match_at tbl hval s i \<or> used (tbl ! i) = 0"

definition exit_at :: "htab_entry list \<Rightarrow> uint32_t \<Rightarrow> string \<Rightarrow> nat \<Rightarrow> probe_exit" where
  "exit_at tbl hval s i =
     (if i \<noteq> unat hval \<and> match_at tbl hval s i then Existing (of_nat i) else NewEntry (of_nat i))"

fun exit_index :: "probe_exit \<Rightarrow> uint32_t" where
  "exit_index (Existing idx) = idx"
| "exit_index (NewEntry idx) = idx"

section \<open>Properties\<close>

subsection \<open>Evaluation on concrete tables\<close>

lemma replicate_numeral_Cons: "replicate (numeral k) x = x # replicate (pred_numeral k) x"
  by (simp add: numeral_eq_Suc)

lemma list_update_numeral_Cons: "(x # xs)[numeral k := y] = x # xs[pred_numeral k := y]"
  by (simp add: numeral_eq_Suc)

lemma word32_minus_1: "(- 1 :: uint32_t) = 4294967295"
  by simp

lemmas htab_eval =
  htab_create_def htab_create_loop.simps isprime_def isprime_loop.simps htab_destroy_def
  htab_hash_def htab_search_def main_hash_def table_hash_def char_to_int_def safe_strcmp_def
  cstring_def probe.simps replicate_numeral_Cons list_update_numeral_Cons Let_def
  never_created_def empty_entry_def word32_minus_1

subsection \<open>isprime and htab\_create return\<close>

lemma isprime_loop_odd:
  "odd divider \<Longrightarrow> \<exists>d. isprime_loop number divider = Inr d \<and> odd d"
proof (induction number divider rule: isprime_loop.induct)
  case (1 number divider)
  show ?case
  proof (cases "divider * divider < number \<and> number mod divider \<noteq> 0")
    case True
    with "1.prems" have "odd (divider + 2)" "divider \<noteq> 0" by auto
    with True "1.IH" obtain d where "isprime_loop number (divider + 2) = Inr d" "odd d"
      by auto
    with True \<open>divider \<noteq> 0\<close> show ?thesis by (subst isprime_loop.simps) simp
  next
    case False
    with "1.prems" show ?thesis by (subst isprime_loop.simps) auto
  qed
qed

lemma isprime_total: "\<exists>b. isprime number = Inr b"
proof -
  have "odd (3::uint32_t)" by simp
  from isprime_loop_odd [OF this, of number] obtain d
    where "isprime_loop number 3 = Inr d" "odd d" by blast
  then show ?thesis by (auto simp: isprime_def)
qed

lemma htab_create_loop_odd:
  "odd nel \<Longrightarrow> \<exists>p. htab_create_loop nel = Inr p \<and> odd p \<and> isprime p = Inr True"
proof (induction nel rule: htab_create_loop.induct)
  case (1 nel)
  obtain b where b: "isprime nel = Inr b" using isprime_total by blast
  show ?case
  proof (cases b)
    case True
    with b "1.prems" show ?thesis by (subst htab_create_loop.simps) simp
  next
    case False
    from "1.prems" have "odd (nel + 2)" by simp
    with "1.IH" [OF b] False obtain p where "htab_create_loop (nel + 2) = Inr p" "odd p" "isprime p = Inr True"
      by auto
    with b False show ?thesis by (subst htab_create_loop.simps) simp
  qed
qed

lemma odd_OR_1: "odd ((nel::uint32_t) OR 1)"
  by (simp add: even_or_iff)

subsection \<open>Words and natural numbers\<close>

lemma unat_of_nat32: "n < 4294967296 \<Longrightarrow> unat (of_nat n :: uint32_t) = n"
  by (simp add: unat_of_nat)

lemma unat_lt32: "unat (w::uint32_t) < 4294967296"
  using unsigned_less [of w] by simp

lemma odd_unat32: "odd (unat (w::uint32_t)) \<longleftrightarrow> odd w"
  by (metis even_of_nat mult.right_neutral unsigned_1 word_arith_nat_mult)

lemma word_mod_eq_0_iff: "(number mod (d::uint32_t) = 0) \<longleftrightarrow> unat d dvd unat number"
  by (metis unsigned_eq_0_iff mod_eq_0_iff_dvd unat_mod)

lemma word_square_less:
  "d * d < 4294967296 \<Longrightarrow> ((of_nat d :: uint32_t) * of_nat d < number) \<longleftrightarrow> d * d < unat number"
  by (metis of_nat_mult unat_of_nat32 word_less_nat_alt)

subsection \<open>What isprime accepts\<close>

text \<open>The loop of \<^verbatim>\<open>isprime\<close> stops at the least divisor of a composite odd number.\<close>

lemma isprime_loop_least_divisor:
  fixes number :: uint32_t and p d :: nat
  assumes p: "p dvd unat number" "p * p \<le> unat number" "odd p"
    and least: "\<And>m. 2 \<le> m \<Longrightarrow> m < p \<Longrightarrow> \<not> m dvd unat number"
  shows "odd d \<Longrightarrow> 3 \<le> d \<Longrightarrow> d \<le> p \<Longrightarrow> isprime_loop number (of_nat d) = Inr (of_nat p)"
proof (induction "p - d" arbitrary: d rule: less_induct)
  case less
  have N: "unat number < 4294967296" by (rule unat_lt32)
  have pp: "p * p < 4294967296" using p(2) N by simp
  have "d * d \<le> p * p" using less.prems by (simp add: mult_le_mono)
  then have dd: "d * d < 4294967296" using pp by simp
  have "d \<le> d * d" using less.prems by (cases d) simp_all
  from this dd have d32: "d < 4294967296" by (rule le_less_trans)
  have ud: "unat (of_nat d :: uint32_t) = d" using d32 by (rule unat_of_nat32)
  have d0: "(of_nat d :: uint32_t) \<noteq> 0" using ud less.prems by (metis unat_0 not_numeral_le_zero)
  show ?case
  proof (cases "d = p")
    case True
    have "number mod (of_nat p :: uint32_t) = 0"
      using p(1) ud True by (simp add: word_mod_eq_0_iff)
    then show ?thesis using True d0 by (subst isprime_loop.simps) simp
  next
    case False
    with less.prems have "d < p" by simp
    with less.prems p(3) have d2: "d + 2 \<le> p" by presburger
    have "d * d < p * p" using \<open>d < p\<close> by (simp add: mult_strict_mono)
    with p(2) have c1: "(of_nat d :: uint32_t) * of_nat d < number"
      using dd by (simp add: word_square_less)
    have "\<not> d dvd unat number" using least [of d] \<open>d < p\<close> less.prems by simp
    then have c2: "number mod (of_nat d :: uint32_t) \<noteq> 0"
      using ud by (simp add: word_mod_eq_0_iff)
    have "isprime_loop number (of_nat (d + 2)) = Inr (of_nat p)"
      using less.hyps [of "d + 2"] less.prems d2 \<open>d < p\<close> by simp
    then have "isprime_loop number (of_nat d + 2) = Inr (of_nat p)"
      by (simp add: add.commute)
    then show ?thesis using c1 c2 d0 by (subst isprime_loop.simps) simp
  qed
qed

lemma least_divisor:
  fixes N :: nat
  assumes "2 \<le> m" "m < N" "m dvd N"
  obtains p where "2 \<le> p" "p dvd N" "p * p \<le> N" "\<And>k. 2 \<le> k \<Longrightarrow> k < p \<Longrightarrow> \<not> k dvd N"
proof -
  define p where "p = (LEAST k. 2 \<le> k \<and> k dvd N)"
  have ex: "2 \<le> m \<and> m dvd N" using assms by simp
  have p: "2 \<le> p \<and> p dvd N" unfolding p_def using ex by (rule LeastI)
  have pm: "p \<le> m" unfolding p_def using ex by (rule Least_le)
  have least: "\<not> k dvd N" if "2 \<le> k" "k < p" for k
    using that not_less_Least [of k "\<lambda>k. 2 \<le> k \<and> k dvd N"] unfolding p_def by auto
  from p obtain q where q: "N = p * q" by (auto simp: dvd_def)
  have "q \<noteq> 0" using q assms by (cases "q = 0") auto
  moreover have "q \<noteq> 1" using q pm assms by auto
  ultimately have "2 \<le> q" by simp
  have "q dvd N" using q by simp
  with \<open>2 \<le> q\<close> have "\<not> q < p" using least by blast
  then have "p * p \<le> N" using q by simp
  with p least show ?thesis using that by blast
qed

text \<open>
  So \<^verbatim>\<open>isprime\<close> accepts no composite odd number: what it accepts is a prime, or 1.
\<close>

lemma isprime_sound:
  assumes "isprime number = Inr True" "odd number" "number \<noteq> 1"
  shows "prime_nat (unat number)"
proof (rule ccontr)
  assume np: "\<not> prime_nat (unat number)"
  have oddN: "odd (unat number)" using assms(2) by (simp add: odd_unat32)
  have "unat number \<noteq> 1" using assms(3) by (metis unat_1 word_unat_eq_iff)
  with oddN have "1 < unat number" by (cases "unat number") auto
  with np obtain m where m: "2 \<le> m" "m < unat number" "m dvd unat number"
    by (auto simp: prime_nat_def)
  from least_divisor [OF this] obtain p where p: "2 \<le> p" "p dvd unat number"
      "p * p \<le> unat number" "\<And>k. 2 \<le> k \<Longrightarrow> k < p \<Longrightarrow> \<not> k dvd unat number"
    by metis
  have "odd p" using p(2) oddN by (meson dvd_trans)
  with p(1) have p3: "3 \<le> p" by (cases "p = 2") auto
  have loop: "isprime_loop number 3 = Inr (of_nat p)"
    using isprime_loop_least_divisor [OF p(2,3) \<open>odd p\<close> p(4), of 3] p3 by simp
  have "p \<le> p * p" using p(1) by (cases p) simp_all
  also note p(3)
  also note unat_lt32 [of number]
  finally have "p < 4294967296" .
  then have up: "unat (of_nat p :: uint32_t) = p" by (rule unat_of_nat32)
  with p(1) have "(of_nat p :: uint32_t) \<noteq> 0" by (metis unat_0 not_numeral_le_zero)
  moreover have "number mod (of_nat p :: uint32_t) = 0"
    using p(2) up by (simp add: word_mod_eq_0_iff)
  ultimately have "isprime number = Inr False"
    using loop by (simp add: isprime_def)
  with assms(1) show False by simp
qed

subsection \<open>The probe sequence\<close>

lemma probe_pos_0 [simp]: "probe_pos c h2 i 0 = i"
  by (simp add: probe_pos_def)

lemma probe_pos_Suc: "probe_pos c h2 i (Suc j) = probe_next c h2 (probe_pos c h2 i j)"
  by (simp add: probe_pos_def)

lemma probe_next_range:
  assumes "1 \<le> i" "i \<le> c" "1 \<le> h2" "h2 < c"
  shows "1 \<le> probe_next c h2 i \<and> probe_next c h2 i \<le> c"
  using assms by (auto simp: probe_next_def)

lemma probe_pos_range:
  assumes "1 \<le> i" "i \<le> c" "1 \<le> h2" "h2 < c"
  shows "1 \<le> probe_pos c h2 i j \<and> probe_pos c h2 i j \<le> c"
proof (induction j)
  case 0
  then show ?case using assms by simp
next
  case (Suc j)
  then show ?case using probe_next_range [OF _ _ assms(3,4)] by (simp add: probe_pos_Suc)
qed

lemma probe_next_dvd:
  assumes "h2 < c"
  shows "int c dvd (int (probe_next c h2 i) - (int i - int h2))"
proof (cases "i \<le> h2")
  case True
  then have "int (probe_next c h2 i) = int c + int i - int h2"
    using assms by (simp add: probe_next_def)
  then show ?thesis by simp
next
  case False
  then have "int (probe_next c h2 i) = int i - int h2"
    by (simp add: probe_next_def)
  then show ?thesis by simp
qed

lemma probe_pos_dvd:
  assumes "h2 < c"
  shows "int c dvd (int (probe_pos c h2 i j) - (int i - int j * int h2))"
proof (induction j)
  case 0
  then show ?case by simp
next
  case (Suc j)
  have "int (probe_pos c h2 i (Suc j)) - (int i - int (Suc j) * int h2) =
      (int (probe_next c h2 (probe_pos c h2 i j)) - (int (probe_pos c h2 i j) - int h2))
      + (int (probe_pos c h2 i j) - (int i - int j * int h2))"
    by (simp add: probe_pos_Suc algebra_simps)
  then show ?case using Suc probe_next_dvd [OF assms] by (simp only: dvd_add)
qed

text \<open>Two indices of the range \<open>1 .. c\<close> that are congruent modulo \<open>c\<close> are equal.\<close>

lemma range_cong_eq:
  fixes a b c :: nat
  assumes "1 \<le> a" "a \<le> c" "1 \<le> b" "b \<le> c" "int c dvd (int a - int b)"
  shows "a = b"
proof (rule ccontr)
  assume "a \<noteq> b"
  then have "int a - int b \<noteq> 0" by simp
  from this assms(5) have "\<bar>int c\<bar> \<le> \<bar>int a - int b\<bar>" by (rule dvd_imp_le_int)
  with assms(1-4) show False by simp
qed

lemma probe_pos_eq_if_dvd:
  assumes "1 \<le> i" "i \<le> c" "1 \<le> h2" "h2 < c" "int c dvd (int j - int k)"
  shows "probe_pos c h2 i j = probe_pos c h2 i k"
proof -
  have eq: "(int (probe_pos c h2 i j) - (int i - int j * int h2))
      - (int (probe_pos c h2 i k) - (int i - int k * int h2)) - (int j - int k) * int h2
      = int (probe_pos c h2 i j) - int (probe_pos c h2 i k)"
    by (simp add: algebra_simps)
  have "int c dvd ((int (probe_pos c h2 i j) - (int i - int j * int h2))
      - (int (probe_pos c h2 i k) - (int i - int k * int h2)) - (int j - int k) * int h2)"
    using probe_pos_dvd [OF assms(4), of i j] probe_pos_dvd [OF assms(4), of i k] assms(5)
    by (simp only: dvd_diff dvd_mult2)
  then have "int c dvd (int (probe_pos c h2 i j) - int (probe_pos c h2 i k))"
    unfolding eq .
  then show ?thesis
    using probe_pos_range [OF assms(1-4)] by (intro range_cong_eq [of _ c]) auto
qed

lemma probe_pos_return:
  assumes "1 \<le> i" "i \<le> c" "1 \<le> h2" "h2 < c"
  shows "probe_pos c h2 i c = i"
  using probe_pos_eq_if_dvd [OF assms, of c 0] by simp

lemma prime_nat_coprime:
  assumes "prime_nat c" "1 \<le> h2" "h2 < c"
  shows "coprime (int c) (int h2)"
proof -
  define g where "g = gcd c h2"
  have g: "g dvd c" "g dvd h2" by (simp_all add: g_def)
  then have "g \<le> h2" using assms(2) by (simp add: dvd_imp_le)
  then have "g < c" using assms(3) by simp
  have "g \<noteq> 0" using g assms by (metis dvd_0_left not_one_le_zero)
  have "g < 2"
  proof (rule ccontr)
    assume "\<not> g < 2"
    then have "g \<in> set [2..<c]" using \<open>g < c\<close> by simp
    with assms(1) g(1) show False by (auto simp: prime_nat_def)
  qed
  with \<open>g \<noteq> 0\<close> have "g = 1" by simp
  then have "coprime c h2" by (simp add: g_def coprime_iff_gcd_eq_1)
  then show ?thesis by simp
qed

lemma probe_pos_dvd_if_eq:
  assumes "prime_nat c" "1 \<le> h2" "h2 < c"
    and "probe_pos c h2 i j = probe_pos c h2 i k"
  shows "int c dvd (int j - int k)"
proof -
  have eq: "(int (probe_pos c h2 i j) - (int i - int j * int h2))
      - (int (probe_pos c h2 i k) - (int i - int k * int h2)) = (int j - int k) * int h2"
    using assms(4) by (simp add: algebra_simps)
  have "int c dvd ((int (probe_pos c h2 i j) - (int i - int j * int h2))
      - (int (probe_pos c h2 i k) - (int i - int k * int h2)))"
    using probe_pos_dvd [OF assms(3), of i j] probe_pos_dvd [OF assms(3), of i k]
    by (simp only: dvd_diff)
  then have "int c dvd (int j - int k) * int h2"
    unfolding eq .
  then show ?thesis
    using prime_nat_coprime [OF assms(1-3)] by (simp add: coprime_dvd_mult_left_iff)
qed

lemma probe_pos_inj:
  assumes "prime_nat c" "1 \<le> h2" "h2 < c"
  shows "inj_on (probe_pos c h2 i) {0..<c}"
proof (rule inj_onI)
  fix j k assume jk: "j \<in> {0..<c}" "k \<in> {0..<c}" "probe_pos c h2 i j = probe_pos c h2 i k"
  then have "int c dvd (int j - int k)" using probe_pos_dvd_if_eq [OF assms] by blast
  moreover have "\<bar>int j - int k\<bar> < int c" using jk by auto
  ultimately have "int j - int k = 0" using dvd_imp_le_int [of "int j - int k" "int c"] by auto
  then show "j = k" by simp
qed

lemma probe_pos_cover:
  assumes "prime_nat c" "1 \<le> i" "i \<le> c" "1 \<le> h2" "h2 < c"
  shows "probe_pos c h2 i ` {0..<c} = {1..c}"
proof (rule card_subset_eq)
  show "finite {1..c}" by simp
  show "probe_pos c h2 i ` {0..<c} \<subseteq> {1..c}"
    using probe_pos_range [OF assms(2-5)] by auto
  show "card (probe_pos c h2 i ` {0..<c}) = card {1..c}"
    using probe_pos_inj [OF assms(1,4,5)] by (simp add: card_image)
qed

lemma probe_pos_not_start:
  assumes "prime_nat c" "1 \<le> h2" "h2 < c" "0 < j" "j < c"
  shows "probe_pos c h2 i j \<noteq> i"
proof
  assume "probe_pos c h2 i j = i"
  then have "probe_pos c h2 i j = probe_pos c h2 i 0" by simp
  then have "int c dvd (int j - int 0)" by (rule probe_pos_dvd_if_eq [OF assms(1-3)])
  then have "c dvd j" by simp
  with assms(4,5) show False by (auto dest: dvd_imp_le)
qed

text \<open>
  The probe sequence at a prime capacity \<open>c\<close>: from a start index in \<open>1 .. c\<close> and with
  a step in \<open>1 .. c - 1\<close>, the first \<open>c\<close> indices are pairwise distinct and are all of
  \<open>1 .. c\<close>, and the next index is the start index again.
\<close>

lemma probe_sequence_prime:
  assumes "prime_nat c" "1 \<le> i" "i \<le> c" "1 \<le> h2" "h2 < c"
  shows "inj_on (probe_pos c h2 i) {0..<c}" "probe_pos c h2 i ` {0..<c} = {1..c}"
    "probe_pos c h2 i c = i"
  using probe_pos_inj [OF assms(1,4,5)] probe_pos_cover [OF assms] probe_pos_return [OF assms(2-5)]
  by simp_all

subsection \<open>The two hash values and the index update on words\<close>

lemma table_hash_range:
  assumes "sz \<noteq> 0"
  shows "table_hash r sz \<noteq> 0" "1 \<le> unat (table_hash r sz)" "unat (table_hash r sz) \<le> unat sz"
    "1 < unat sz \<Longrightarrow> unat (table_hash r sz) < unat sz"
proof -
  have lt: "unat (r mod sz) < unat sz"
    using assms by (simp add: unat_mod unat_gt_0)
  show "table_hash r sz \<noteq> 0" by (simp add: table_hash_def Let_def)
  then show "1 \<le> unat (table_hash r sz)" by (simp add: unat_gt_0 Suc_le_eq)
  show "unat (table_hash r sz) \<le> unat sz"
    using lt assms by (auto simp: table_hash_def Let_def unat_gt_0 Suc_le_eq)
  show "unat (table_hash r sz) < unat sz" if "1 < unat sz"
    using lt that by (auto simp: table_hash_def Let_def)
qed

lemma hval2_range:
  fixes sz hval :: uint32_t
  assumes "3 \<le> sz"
  shows "sz - 2 \<noteq> 0" "1 \<le> unat (1 + hval mod (sz - 2))" "unat (1 + hval mod (sz - 2)) \<le> unat sz - 2"
proof -
  have s: "unat (sz - 2) = unat sz - 2" "3 \<le> unat sz"
    using assms by unat_arith+
  show "sz - 2 \<noteq> 0"
  proof
    assume "sz - 2 = 0"
    then have "unat (sz - 2) = 0" by simp
    with s show False by simp
  qed
  have "unat (hval mod (sz - 2)) < unat sz - 2"
    using s by (simp add: unat_mod)
  moreover have "unat sz < 4294967296" by (rule unat_lt32)
  ultimately have "unat (1 + hval mod (sz - 2)) = 1 + unat (hval mod (sz - 2))"
    by (simp add: unat_word_ariths)
  then show "1 \<le> unat (1 + hval mod (sz - 2))" "unat (1 + hval mod (sz - 2)) \<le> unat sz - 2"
    using \<open>unat (hval mod (sz - 2)) < unat sz - 2\<close> by simp_all
qed

lemma probe_step_unat:
  fixes sz idx hval2 :: uint32_t
  assumes "unat idx \<le> unat sz" "unat hval2 < unat sz"
  shows "unat (if idx \<le> hval2 then sz + idx - hval2 else idx - hval2)
      = probe_next (unat sz) (unat hval2) (unat idx)"
  using assms unfolding probe_next_def
  by unat_arith

subsection \<open>The probe loop\<close>

text \<open>
  The loop follows the probe sequence up to the first index at which it stops, and
  returns what \<open>exit_at\<close> says there, when it has that many iterations.
\<close>

lemma probe_scan:
  fixes sz hval hval2 idx :: uint32_t
  assumes len: "length tbl = unat sz + 1"
    and h2: "1 \<le> unat hval2" "unat hval2 < unat sz"
    and hv: "1 \<le> unat hval" "unat hval \<le> unat sz"
    and stop: "probe_stops tbl hval s (probe_pos (unat sz) (unat hval2) (unat hval) J)"
    and nostop: "\<And>k. 0 < k \<Longrightarrow> k < J \<Longrightarrow>
        \<not> probe_stops tbl hval s (probe_pos (unat sz) (unat hval2) (unat hval) k)"
  shows "j < J \<Longrightarrow> unat idx = probe_pos (unat sz) (unat hval2) (unat hval) j \<Longrightarrow> J - j \<le> n
    \<Longrightarrow> probe n tbl sz s hval hval2 idx
      = Inr (exit_at tbl hval s (probe_pos (unat sz) (unat hval2) (unat hval) J))"
proof (induction "J - j" arbitrary: j idx n rule: less_induct)
  case less
  define pos where "pos = probe_pos (unat sz) (unat hval2) (unat hval)"
  define idx' where "idx' = (if idx \<le> hval2 then sz + idx - hval2 else idx - hval2)"
  have rng: "1 \<le> pos k \<and> pos k \<le> unat sz" for k
    unfolding pos_def using probe_pos_range [OF hv h2] by simp
  have "unat idx \<le> unat sz" using less.prems(2) rng [of j] by (simp add: pos_def)
  then have u': "unat idx' = pos (Suc j)"
    unfolding idx'_def using probe_step_unat [of idx sz hval2] h2(2) less.prems(2)
    by (simp add: pos_def probe_pos_Suc)
  have "word_of_nat (unat idx') = idx'" by simp
  with u' have w': "idx' = of_nat (pos (Suc j))" by simp
  have inr: "\<not> length tbl \<le> unat idx'" using u' rng [of "Suc j"] len by simp
  have eqh: "idx' = hval \<longleftrightarrow> pos (Suc j) = unat hval"
    using u' by (metis word_unat_eq_iff)
  have n0: "n \<noteq> 0" using less.prems by simp
  show ?case
  proof (cases "Suc j = J")
    case True
    with stop have st: "probe_stops tbl hval s (pos (Suc j))" by (simp add: pos_def)
    have "probe n tbl sz s hval hval2 idx = Inr (exit_at tbl hval s (pos (Suc j)))"
      using st n0 inr eqh u' w'
      by (subst probe.simps)
        (auto simp: probe_stops_def exit_at_def match_at_def Let_def idx'_def [symmetric])
    with True show ?thesis by (simp add: pos_def)
  next
    case False
    with less.prems have lt: "Suc j < J" by simp
    have "\<not> probe_stops tbl hval s (pos (Suc j))"
      using nostop [of "Suc j", OF zero_less_Suc lt] by (simp add: pos_def)
    then have "probe n tbl sz s hval hval2 idx = probe (n - 1) tbl sz s hval hval2 idx'"
      using n0 inr eqh u'
      by (subst probe.simps)
        (auto simp: probe_stops_def match_at_def Let_def idx'_def [symmetric])
    moreover have "probe (n - 1) tbl sz s hval hval2 idx'
        = Inr (exit_at tbl hval s (probe_pos (unat sz) (unat hval2) (unat hval) J))"
      using less.hyps [of "Suc j" idx' "n - 1"] lt u' less.prems
      by (simp add: pos_def)
    ultimately show ?thesis by simp
  qed
qed

lemma probe_from_home:
  fixes sz :: uint32_t and s :: string and tbl :: "htab_entry list"
  assumes sz: "3 \<le> sz" and len: "length tbl = unat sz + 1"
  defines "hval \<equiv> table_hash (main_hash s) sz"
  defines "pos \<equiv> probe_pos (unat sz) (unat (1 + hval mod (sz - 2))) (unat hval)"
  shows "\<exists>J. 0 < J \<and> J \<le> unat sz \<and> probe_stops tbl hval s (pos J)
    \<and> (\<forall>k. 0 < k \<and> k < J \<longrightarrow> \<not> probe_stops tbl hval s (pos k))
    \<and> (\<forall>n. unat sz \<le> n \<longrightarrow>
         probe n tbl sz s hval (1 + hval mod (sz - 2)) hval = Inr (exit_at tbl hval s (pos J)))"
proof -
  define hval2 where "hval2 = 1 + hval mod (sz - 2)"
  have c3: "3 \<le> unat sz" using sz by unat_arith
  then have sz0: "sz \<noteq> 0" by auto
  have hv: "1 \<le> unat hval" "unat hval \<le> unat sz"
    using table_hash_range [OF sz0, of "main_hash s"] by (simp_all add: hval_def)
  have h2: "1 \<le> unat hval2" "unat hval2 < unat sz"
    using hval2_range(2,3) [OF sz, of hval] c3 by (simp_all add: hval2_def)
  define J where "J = (LEAST k. 0 < k \<and> probe_stops tbl hval s (pos k))"
  have "pos (unat sz) = unat hval"
    unfolding pos_def hval2_def [symmetric] using probe_pos_return [OF hv h2] .
  then have ex: "0 < unat sz \<and> probe_stops tbl hval s (pos (unat sz))"
    using c3 by (simp add: probe_stops_def)
  have J: "0 < J \<and> probe_stops tbl hval s (pos J)"
    unfolding J_def using ex by (rule LeastI)
  have Jle: "J \<le> unat sz" unfolding J_def using ex by (rule Least_le)
  have least: "\<not> probe_stops tbl hval s (pos k)" if "0 < k" "k < J" for k
    using that not_less_Least [of k "\<lambda>k. 0 < k \<and> probe_stops tbl hval s (pos k)"]
    unfolding J_def by auto
  have "probe n tbl sz s hval hval2 hval = Inr (exit_at tbl hval s (pos J))" if "unat sz \<le> n" for n
    unfolding pos_def hval2_def [symmetric]
    using J least that Jle
    by (intro probe_scan [OF len h2 hv, where j = 0]) (simp_all add: pos_def hval2_def)
  with J Jle least show ?thesis unfolding hval2_def by blast
qed

text \<open>
  On a table of capacity at least 3 the probe loop ends within as many iterations as
  the capacity, whatever the slots hold: more iterations than that are never used.
\<close>

lemma probe_within_capacity:
  fixes sz :: uint32_t and s :: string and tbl :: "htab_entry list"
  assumes "3 \<le> sz" "length tbl = unat sz + 1" "unat sz \<le> n"
  shows "\<exists>e. probe (unat sz) tbl sz s (table_hash (main_hash s) sz)
          (1 + table_hash (main_hash s) sz mod (sz - 2)) (table_hash (main_hash s) sz) = Inr e
    \<and> probe n tbl sz s (table_hash (main_hash s) sz)
          (1 + table_hash (main_hash s) sz mod (sz - 2)) (table_hash (main_hash s) sz) = Inr e"
  using probe_from_home [OF assms(1,2), of s] assms(3) by (metis order_refl)

lemma htab_search_cases:
  fixes sz :: uint32_t and s :: string and tbl :: "htab_entry list"
  assumes sz: "3 \<le> sz" and len: "length tbl = unat sz + 1"
  defines "hval \<equiv> table_hash (main_hash s) sz"
  defines "pos \<equiv> probe_pos (unat sz) (unat (1 + hval mod (sz - 2))) (unat hval)"
  obtains
    (home_free) "used (tbl ! unat hval) = 0" "htab_search tbl sz s = Inr (NewEntry hval)"
  | (home_match) "used (tbl ! unat hval) \<noteq> 0" "match_at tbl hval s (unat hval)"
      "htab_search tbl sz s = Inr (Existing hval)"
  | (probed) J where "used (tbl ! unat hval) \<noteq> 0" "\<not> match_at tbl hval s (unat hval)"
      "0 < J" "J \<le> unat sz" "probe_stops tbl hval s (pos J)"
      "\<And>k. 0 < k \<Longrightarrow> k < J \<Longrightarrow> \<not> probe_stops tbl hval s (pos k)"
      "htab_search tbl sz s = Inr (exit_at tbl hval s (pos J))"
proof -
  have c3: "3 \<le> unat sz" using sz by unat_arith
  then have sz0: "sz \<noteq> 0" by auto
  have hv: "unat hval < unat sz"
    using table_hash_range(4) [OF sz0, of "main_hash s"] c3 by (simp add: hval_def)
  have s2: "sz - 2 \<noteq> 0" using hval2_range(1) [OF sz] .
  have inr: "\<not> length tbl \<le> unat hval" using hv len by simp
  show thesis
  proof (cases "used (tbl ! unat hval) = 0")
    case True
    then have "htab_search tbl sz s = Inr (NewEntry hval)"
      using sz0 inr by (simp add: htab_search_def Let_def hval_def)
    with True show thesis by (rule home_free)
  next
    case used: False
    show thesis
    proof (cases "match_at tbl hval s (unat hval)")
      case True
      then have "htab_search tbl sz s = Inr (Existing hval)"
        using sz0 inr used by (simp add: htab_search_def Let_def hval_def match_at_def)
      with used True show thesis by (rule home_match)
    next
      case nomatch: False
      from probe_from_home [OF sz len, of s] obtain J
        where J: "0 < J" "J \<le> unat sz" "probe_stops tbl hval s (pos J)"
          "\<forall>k. 0 < k \<and> k < J \<longrightarrow> \<not> probe_stops tbl hval s (pos k)"
          "\<forall>n. unat sz \<le> n \<longrightarrow>
             probe n tbl sz s hval (1 + hval mod (sz - 2)) hval = Inr (exit_at tbl hval s (pos J))"
        unfolding hval_def pos_def by blast
      have "unat sz \<le> 4294967296" using unat_lt32 [of sz] by simp
      with J(5) have "probe 4294967296 tbl sz s hval (1 + hval mod (sz - 2)) hval
          = Inr (exit_at tbl hval s (pos J))"
        by blast
      then have res: "htab_search tbl sz s = Inr (exit_at tbl hval s (pos J))"
        using sz0 inr used nomatch s2
        by (auto simp: htab_search_def Let_def hval_def match_at_def)
      show thesis
      proof (rule probed)
        show "used (tbl ! unat hval) \<noteq> 0" by fact
        show "\<not> match_at tbl hval s (unat hval)" by fact
        show "0 < J" "probe_stops tbl hval s (pos J)" "J \<le> unat sz" by fact+
        show "htab_search tbl sz s = Inr (exit_at tbl hval s (pos J))" by fact
        show "\<not> probe_stops tbl hval s (pos k)" if "0 < k" "k < J" for k
          using that J(4) by blast
      qed
    qed
  qed
qed

subsection \<open>A key looked up again\<close>

lemma cstring_idem [simp]: "cstring (cstring s) = cstring s"
  by (simp add: cstring_def)

lemma safe_strcmp_copy [simp]: "safe_strcmp (Some s) (Some (cstring s))"
  by (simp add: safe_strcmp_def)

lemma probe_after_insert:
  assumes "probe n tbl sz s hval hval2 i0 = Inr (NewEntry idx)" "idx \<noteq> hval"
  shows "probe n (tbl[unat idx := \<lparr>used = hval, str = Some (cstring s)\<rparr>]) sz s hval hval2 i0
      = Inr (Existing idx)"
  using assms
proof (induction n tbl sz s hval hval2 i0 rule: probe.induct)
  case (1 n tbl sz s hval hval2 i0)
  define i1 where "i1 = (if i0 \<le> hval2 then sz + i0 - hval2 else i0 - hval2)"
  define tbl' where "tbl' = tbl[unat idx := \<lparr>used = hval, str = Some (cstring s)\<rparr>]"
  have len: "length tbl' = length tbl" by (simp add: tbl'_def)
  from "1.prems"(1) have n0: "n \<noteq> 0"
    by (subst (asm) probe.simps) (auto split: if_splits)
  from "1.prems" n0 have i1h: "i1 \<noteq> hval" and inr: "\<not> length tbl \<le> unat i1"
    and nomatch: "\<not> (used (tbl ! unat i1) = hval \<and> safe_strcmp (Some s) (str (tbl ! unat i1)))"
    by (subst (asm) probe.simps; auto simp: Let_def i1_def [symmetric] split: if_splits)+
  show ?case
  proof (cases "i1 = idx")
    case True
    then have "tbl' ! unat i1 = \<lparr>used = hval, str = Some (cstring s)\<rparr>"
      using inr by (simp add: tbl'_def)
    then show ?thesis
      using n0 i1h inr True len
      by (subst probe.simps) (simp add: Let_def i1_def [symmetric] tbl'_def [symmetric])
  next
    case False
    then have "unat i1 \<noteq> unat idx" by (simp add: word_unat_eq_iff)
    then have same: "tbl' ! unat i1 = tbl ! unat i1" by (simp add: tbl'_def)
    from "1.prems"(1) n0 i1h inr nomatch False
    have used: "used (tbl ! unat i1) \<noteq> 0"
      and rec: "probe (n - 1) tbl sz s hval hval2 i1 = Inr (NewEntry idx)"
      by (subst (asm) probe.simps; auto simp: Let_def i1_def [symmetric] split: if_splits)+
    have "probe (n - 1) tbl' sz s hval hval2 i1 = Inr (Existing idx)"
      unfolding tbl'_def
      using "1.IH" [OF n0 i1_def i1h _ _ used rec "1.prems"(2)] inr nomatch by auto
    then show ?thesis
      using n0 i1h inr nomatch used same len
      by (subst probe.simps) (auto simp: Let_def i1_def [symmetric] tbl'_def [symmetric])
  qed
qed

lemma probe_NewEntry_in_range:
  assumes "probe n tbl sz s hval hval2 i0 = Inr (NewEntry idx)"
  shows "idx = hval \<or> unat idx < length tbl"
  using assms
proof (induction n tbl sz s hval hval2 i0 rule: probe.induct)
  case (1 n tbl sz s hval hval2 i0)
  define i1 where "i1 = (if i0 \<le> hval2 then sz + i0 - hval2 else i0 - hval2)"
  from "1.prems" have n0: "n \<noteq> 0"
    by (subst (asm) probe.simps) (auto split: if_splits)
  show ?case
  proof (cases "i1 = hval \<or> length tbl \<le> unat i1 \<or> used (tbl ! unat i1) = 0
      \<or> (used (tbl ! unat i1) = hval \<and> safe_strcmp (Some s) (str (tbl ! unat i1)))")
    case True
    with "1.prems" n0 show ?thesis
      by (subst (asm) probe.simps) (auto simp: Let_def i1_def [symmetric] split: if_splits)
  next
    case False
    with "1.prems" n0 have "probe (n - 1) tbl sz s hval hval2 i1 = Inr (NewEntry idx)"
      by (subst (asm) probe.simps) (auto simp: Let_def i1_def [symmetric] split: if_splits)
    with "1.IH" [OF n0 i1_def] False show ?thesis by auto
  qed
qed

lemma htab_search_NewEntry_in_range:
  assumes "htab_search tbl sz s = Inr (NewEntry idx)"
  shows "unat idx < length tbl"
proof -
  define hval where "hval = table_hash (main_hash s) sz"
  from assms have inr: "unat hval < length tbl"
    by (auto simp: htab_search_def Let_def hval_def split: if_splits)
  from assms have "idx = hval \<or> probe 4294967296 tbl sz s hval (1 + hval mod (sz - 2)) hval
      = Inr (NewEntry idx)"
    by (auto simp: htab_search_def Let_def hval_def split: if_splits)
  with inr probe_NewEntry_in_range show ?thesis by blast
qed

lemma htab_search_after_insert:
  assumes "htab_search tbl sz s = Inr (NewEntry idx)"
  shows "htab_search (tbl[unat idx := \<lparr>used = table_hash (main_hash s) sz, str = Some (cstring s)\<rparr>])
      sz s = Inr (Existing idx)"
proof -
  define hval where "hval = table_hash (main_hash s) sz"
  define tbl' where "tbl' = tbl[unat idx := \<lparr>used = hval, str = Some (cstring s)\<rparr>]"
  have len: "length tbl' = length tbl" by (simp add: tbl'_def)
  from assms have sz0: "sz \<noteq> 0" and inr: "\<not> length tbl \<le> unat hval"
    by (auto simp: htab_search_def Let_def hval_def split: if_splits)
  have h0: "hval \<noteq> 0" using table_hash_range(1) [OF sz0] by (simp add: hval_def)
  have idx: "unat idx < length tbl" using assms by (rule htab_search_NewEntry_in_range)
  show ?thesis
  proof (cases "idx = hval")
    case True
    then have "tbl' ! unat hval = \<lparr>used = hval, str = Some (cstring s)\<rparr>"
      using idx by (simp add: tbl'_def)
    then show ?thesis
      using sz0 inr len h0 True
      by (simp add: htab_search_def Let_def hval_def [symmetric] tbl'_def [symmetric])
  next
    case False
    then have "unat hval \<noteq> unat idx" by (simp add: word_unat_eq_iff)
    then have same: "tbl' ! unat hval = tbl ! unat hval" by (simp add: tbl'_def)
    from assms False sz0 inr
    have used: "used (tbl ! unat hval) \<noteq> 0"
      and nomatch: "\<not> (used (tbl ! unat hval) = hval \<and> safe_strcmp (Some s) (str (tbl ! unat hval)))"
      and sz2: "sz - 2 \<noteq> 0"
      and pr: "probe 4294967296 tbl sz s hval (1 + hval mod (sz - 2)) hval = Inr (NewEntry idx)"
      by (auto simp: htab_search_def Let_def hval_def [symmetric] split: if_splits)
    have "probe 4294967296 tbl' sz s hval (1 + hval mod (sz - 2)) hval = Inr (Existing idx)"
      unfolding tbl'_def using pr False by (rule probe_after_insert)
    then show ?thesis
      using sz0 inr len used nomatch sz2 same
      by (auto simp: htab_search_def Let_def hval_def [symmetric] tbl'_def [symmetric])
  qed
qed

lemma exit_index_exit_at: "exit_index (exit_at tbl hval s i) = of_nat i"
  by (simp add: exit_at_def)

lemma htab_search_total:
  fixes sz :: uint32_t
  assumes sz: "3 \<le> sz" and len: "length tbl = unat sz + 1"
  shows "\<exists>e. htab_search tbl sz s = Inr e \<and> 1 \<le> unat (exit_index e) \<and> unat (exit_index e) \<le> unat sz"
proof -
  define hval where "hval = table_hash (main_hash s) sz"
  define hval2 where "hval2 = 1 + hval mod (sz - 2)"
  have c3: "3 \<le> unat sz" using sz by unat_arith
  then have sz0: "sz \<noteq> 0" by auto
  have hv: "1 \<le> unat hval" "unat hval \<le> unat sz"
    using table_hash_range [OF sz0, of "main_hash s"] by (simp_all add: hval_def)
  have h2: "1 \<le> unat hval2" "unat hval2 < unat sz"
    using hval2_range(2,3) [OF sz, of hval] c3 by (simp_all add: hval2_def)
  from sz len show ?thesis
  proof (cases rule: htab_search_cases [where s = s])
    case home_free
    then show ?thesis using hv by (simp add: hval_def)
  next
    case home_match
    then show ?thesis using hv by (simp add: hval_def)
  next
    case (probed J)
    define p where "p = probe_pos (unat sz) (unat hval2) (unat hval) J"
    have r: "1 \<le> p \<and> p \<le> unat sz"
      unfolding p_def using probe_pos_range [OF hv h2] by simp
    then have "p < 4294967296" using unat_lt32 [of sz] by simp
    then have "unat (of_nat p :: uint32_t) = p" by (rule unat_of_nat32)
    with r probed(7) show ?thesis
      by (simp add: exit_index_exit_at p_def hval_def hval2_def)
  qed
qed

lemma htab_hash_again:
  assumes "htab_hash True (Some s) (Some h) = Inr (i, htab')"
  shows "htab_hash ok (Some s) htab' = Inr (i, htab')"
    and "\<exists>h'. htab' = Some h' \<and> size_htab h' = size_htab h
          \<and> (filled h' = filled h \<or> filled h < size_htab h \<and> filled h' = filled h + 1)"
proof -
  show "htab_hash ok (Some s) htab' = Inr (i, htab')"
  proof (cases "table h")
    case None
    with assms show ?thesis by (auto simp: htab_hash_def)
  next
    case (Some tbl)
    show ?thesis
    proof (cases "htab_search tbl (size_htab h) s")
      case (Inl e)
      with assms Some show ?thesis by (simp add: htab_hash_def)
    next
      case (Inr e)
      show ?thesis
      proof (cases e)
        case (Existing idx)
        with assms Some Inr show ?thesis by (auto simp: htab_hash_def)
      next
        case (NewEntry idx)
        show ?thesis
        proof (cases "filled h < size_htab h")
          case False
          with assms Some Inr NewEntry show ?thesis by (auto simp: htab_hash_def)
        next
          case True
          define e where "e = \<lparr>used = table_hash (main_hash s) (size_htab h), str = Some (cstring s)\<rparr>"
          from assms Some Inr NewEntry True
          have r: "i = idx" "htab' = Some (h\<lparr>table := Some (tbl[unat idx := e]), filled := filled h + 1\<rparr>)"
            by (auto simp: htab_hash_def Let_def e_def)
          have "htab_search (tbl[unat idx := e]) (size_htab h) s = Inr (Existing idx)"
            unfolding e_def using Inr NewEntry by (intro htab_search_after_insert) simp
          then show ?thesis using r by (simp add: htab_hash_def)
        qed
      qed
    qed
  qed
  show "\<exists>h'. htab' = Some h' \<and> size_htab h' = size_htab h
          \<and> (filled h' = filled h \<or> filled h < size_htab h \<and> filled h' = filled h + 1)"
    using assms
    by (auto simp: htab_hash_def Let_def split: option.splits sum.splits probe_exit.splits if_splits)
qed

lemma htab_hash_total:
  assumes "htab_wf h"
  shows "\<exists>i h'. htab_hash ok (Some s) (Some h) = Inr (i, Some h') \<and> htab_wf h'
     \<and> unat i \<le> unat (size_htab h)
     \<and> (ok \<and> filled h < size_htab h \<longrightarrow> i \<noteq> 0)"
proof -
  from assms obtain tbl where tbl: "table h = Some tbl" "length tbl = unat (size_htab h) + 1"
    and sz: "3 \<le> size_htab h"
    by (auto simp: htab_wf_def split: option.splits)
  from htab_search_total [OF sz tbl(2), of s] obtain e
    where e: "htab_search tbl (size_htab h) s = Inr e" "1 \<le> unat (exit_index e)"
      "unat (exit_index e) \<le> unat (size_htab h)"
    by blast
  from e(2) have "exit_index e \<noteq> 0" by auto
  with tbl sz e show ?thesis
    by (cases e) (auto simp: htab_hash_def Let_def htab_wf_def)
qed

subsection \<open>Creation\<close>

lemma isprime_max: "isprime (- 1) = Inr False"
  by (simp add: isprime_def isprime_loop.simps word32_minus_1)

lemma htab_create_result:
  assumes "htab_create True nel (Some h0) = Inr (True, Some h)"
  shows "table h0 = None" "filled h = 0"
    "table h = Some (replicate (unat (size_htab h) + 1) empty_entry)"
    "size_htab h = 1 \<or> prime_nat (unat (size_htab h)) \<and> 3 \<le> size_htab h"
proof -
  from assms show t0: "table h0 = None"
    by (auto simp: htab_create_def split: if_splits)
  from htab_create_loop_odd [OF odd_OR_1, of nel] obtain p
    where p: "htab_create_loop (nel OR 1) = Inr p" "odd p" "isprime p = Inr True"
    by blast
  from assms t0 p have h: "h = h0\<lparr>size_htab := p, filled := 0,
      table := Some (replicate (unat (p + 1)) empty_entry)\<rparr>"
    by (simp add: htab_create_def Let_def empty_entry_def)
  then show "filled h = 0" by simp
  have "p \<noteq> - 1" using p(3) isprime_max by auto
  then have "unat (p + 1) = unat p + 1"
    by (simp add: add.commute eq_neg_iff_add_eq_0 unatSuc)
  with h show "table h = Some (replicate (unat (size_htab h) + 1) empty_entry)" by simp
  show "size_htab h = 1 \<or> prime_nat (unat (size_htab h)) \<and> 3 \<le> size_htab h"
  proof (cases "p = 1")
    case True
    with h show ?thesis by simp
  next
    case False
    with p have pr: "prime_nat (unat p)" by (intro isprime_sound)
    have "odd (unat p)" using p(2) by (simp add: odd_unat32)
    moreover have "1 < unat p" using pr by (simp add: prime_nat_def)
    ultimately have "3 \<le> unat p" by (cases "unat p = 2") auto
    then have "3 \<le> p" by (simp add: word_le_nat_alt)
    with pr h show ?thesis by simp
  qed
qed

lemma htab_create_succeeds:
  assumes "table h = None"
  shows "\<exists>h'. htab_create calloc_ok nel (Some h) = Inr (calloc_ok, Some h') \<and> filled h' = 0
    \<and> (table h' \<noteq> None \<longleftrightarrow> calloc_ok)"
proof -
  from htab_create_loop_odd [OF odd_OR_1, of nel] obtain p
    where "htab_create_loop (nel OR 1) = Inr p" by blast
  with assms show ?thesis by (cases calloc_ok) (simp_all add: htab_create_def Let_def)
qed

text \<open>
  Up to \<open>65535\<^sup>2\<close> the product in the loop does not wrap around, and \<^verbatim>\<open>isprime\<close>
  accepts every prime from 5 on.
\<close>

lemma isprime_loop_prime:
  fixes number :: uint32_t and D d :: nat
  assumes pr: "prime_nat (unat number)"
    and D: "unat number \<le> D * D" "D \<le> 65535"
    and least: "\<And>m. odd m \<Longrightarrow> 3 \<le> m \<Longrightarrow> m < D \<Longrightarrow> m * m < unat number"
  shows "odd d \<Longrightarrow> 3 \<le> d \<Longrightarrow> d \<le> D \<Longrightarrow> odd D
    \<Longrightarrow> isprime_loop number (of_nat d) = Inr (of_nat D)"
proof (induction "D - d" arbitrary: d rule: less_induct)
  case less
  have DD: "D * D \<le> 65535 * 65535" using D(2) D(2) by (rule mult_le_mono)
  have d32: "d < 4294967296" using less.prems D(2) by simp
  have ud: "unat (of_nat d :: uint32_t) = d" using d32 by (rule unat_of_nat32)
  have d0: "(of_nat d :: uint32_t) \<noteq> 0" using ud less.prems by (metis unat_0 not_numeral_le_zero)
  have "d * d \<le> D * D" using less.prems by (simp add: mult_le_mono)
  with DD have dd: "d * d < 4294967296" by simp
  show ?case
  proof (cases "d = D")
    case True
    have "\<not> (of_nat d :: uint32_t) * of_nat d < number"
      using dd D(1) True by (simp add: word_square_less)
    then show ?thesis using True by (subst isprime_loop.simps) simp
  next
    case False
    with less.prems have "d < D" by simp
    with less.prems have d2: "d + 2 \<le> D" by presburger
    have lt: "d * d < unat number" using least [of d] less.prems \<open>d < D\<close> by simp
    then have c1: "(of_nat d :: uint32_t) * of_nat d < number"
      using dd by (simp add: word_square_less)
    have "d \<le> d * d" using less.prems by (cases d) simp_all
    from this lt have "d < unat number" by (rule le_less_trans)
    with less.prems pr have "\<not> d dvd unat number" by (auto simp: prime_nat_def)
    then have c2: "number mod (of_nat d :: uint32_t) \<noteq> 0"
      using ud by (simp add: word_mod_eq_0_iff)
    have "isprime_loop number (of_nat (d + 2)) = Inr (of_nat D)"
      using less.hyps [of "d + 2"] less.prems d2 \<open>d < D\<close> by simp
    then have "isprime_loop number (of_nat d + 2) = Inr (of_nat D)"
      by (simp add: add.commute)
    then show ?thesis using c1 c2 d0 by (subst isprime_loop.simps) simp
  qed
qed

lemma isprime_complete:
  assumes pr: "prime_nat (unat number)" and lo: "5 \<le> unat number"
    and hi: "unat number \<le> 4294836225"
  shows "isprime number = Inr True"
proof -
  define P where "P = (\<lambda>m. odd m \<and> 3 \<le> m \<and> unat number \<le> m * m)"
  define D where "D = (LEAST m. P m)"
  have "P 65535" using hi by (simp add: P_def)
  then have PD: "P D" and Dle: "D \<le> 65535"
    unfolding D_def by (rule LeastI, rule Least_le)
  have least: "m * m < unat number" if "odd m" "3 \<le> m" "m < D" for m
    using that not_less_Least [of m P] unfolding D_def P_def by auto
  from PD have D: "odd D" "3 \<le> D" "unat number \<le> D * D" by (simp_all add: P_def)
  have loop: "isprime_loop number 3 = Inr (of_nat D)"
    using isprime_loop_prime [OF pr D(3) Dle least, of 3] D by simp
  have uD: "unat (of_nat D :: uint32_t) = D" using Dle by (intro unat_of_nat32) simp
  with D(2) have D0: "(of_nat D :: uint32_t) \<noteq> 0" by (metis unat_0 not_numeral_le_zero)
  have "D < unat number"
  proof (cases "D = 3")
    case True
    with lo show ?thesis by simp
  next
    case False
    with D have "5 \<le> D" by presburger
    then have "odd (D - 2)" "3 \<le> D - 2" "D - 2 < D" using D(1) by auto
    then have "(D - 2) * (D - 2) < unat number" by (rule least)
    moreover have "D \<le> (D - 2) * (D - 2)"
    proof -
      obtain e where e: "D = e + 5" using \<open>5 \<le> D\<close> by (metis le_Suc_ex add.commute)
      show ?thesis unfolding e by (simp add: algebra_simps)
    qed
    ultimately show ?thesis by simp
  qed
  with D(2) pr have "\<not> D dvd unat number" by (auto simp: prime_nat_def)
  then have "number mod (of_nat D :: uint32_t) \<noteq> 0"
    using uD by (simp add: word_mod_eq_0_iff)
  with loop D0 show ?thesis by (simp add: isprime_def)
qed

text \<open>
  So the loop of \<^verbatim>\<open>htab_create\<close> stops at the first prime from its odd start on,
  when that prime is at least 5 and at most \<open>65535\<^sup>2\<close>, and Create takes it as capacity.
\<close>

lemma htab_create_loop_next_prime:
  fixes p :: nat
  assumes p: "prime_nat p" "5 \<le> p" "p \<le> 4294836225"
  shows "odd n \<Longrightarrow> n \<le> p \<Longrightarrow> (\<And>m. n \<le> m \<Longrightarrow> m < p \<Longrightarrow> \<not> prime_nat m)
    \<Longrightarrow> htab_create_loop (of_nat n) = Inr (of_nat p)"
proof (induction "p - n" arbitrary: n rule: less_induct)
  case less
  have n32: "n < 4294967296" using less.prems(2) p(3) by simp
  have un: "unat (of_nat n :: uint32_t) = n" using n32 by (rule unat_of_nat32)
  show ?case
  proof (cases "n = p")
    case True
    have "isprime (of_nat p :: uint32_t) = Inr True"
      using p un True by (intro isprime_complete) simp_all
    with True show ?thesis by (subst htab_create_loop.simps) simp
  next
    case False
    with less.prems have np: "n < p" by simp
    have "odd p" using p(1,2) by (auto simp: prime_nat_def elim!: evenE)
    with np less.prems(1) have n2: "n + 2 \<le> p" by presburger
    have nopr: "\<not> prime_nat n" using less.prems(3) [of n] np by simp
    have "n \<noteq> 1"
    proof
      assume "n = 1"
      then have "\<not> prime_nat 3" using less.prems(3) [of 3] p(2) by simp
      then show False by (simp add: prime_nat_def)
    qed
    then have n1: "(of_nat n :: uint32_t) \<noteq> 1" using un by (metis unat_1)
    have oddw: "odd (of_nat n :: uint32_t)" using less.prems(1) un by (metis odd_unat32)
    obtain b where b: "isprime (of_nat n :: uint32_t) = Inr b" using isprime_total by blast
    have "\<not> b"
    proof
      assume b
      with b oddw n1 have "prime_nat (unat (of_nat n :: uint32_t))" by (intro isprime_sound) simp
      with un nopr show False by simp
    qed
    have "htab_create_loop (of_nat (n + 2)) = Inr (of_nat p)"
      using less.hyps [of "n + 2"] less.prems n2 np by simp
    then have "htab_create_loop (of_nat n + 2) = Inr (of_nat p)"
      by (simp add: add.commute)
    with b \<open>\<not> b\<close> show ?thesis by (subst htab_create_loop.simps) simp
  qed
qed

lemma htab_create_next_prime:
  assumes "prime_nat p" "5 \<le> p" "p \<le> 4294836225" "unat (nel OR 1) \<le> p"
    and "\<And>m. unat (nel OR 1) \<le> m \<Longrightarrow> m < p \<Longrightarrow> \<not> prime_nat m"
  shows "htab_create True nel (Some never_created) =
    Inr (True, Some \<lparr>table = Some (replicate (p + 1) empty_entry), size_htab = of_nat p, filled = 0\<rparr>)"
proof -
  have o: "odd (unat (nel OR 1))" using odd_OR_1 [of nel] by (simp add: odd_unat32)
  have "htab_create_loop (of_nat (unat (nel OR 1))) = Inr (of_nat p)"
    using assms(4,5) o by (intro htab_create_loop_next_prime [OF assms(1-3)]) auto
  then have l: "htab_create_loop (nel OR 1) = Inr (of_nat p)" by simp
  have "p + 1 < 4294967296" using assms(3) by simp
  then have "unat (of_nat (p + 1) :: uint32_t) = p + 1" by (rule unat_of_nat32)
  then have "unat (of_nat p + 1 :: uint32_t) = p + 1" by (simp add: add.commute)
  with l show ?thesis
    by (simp add: htab_create_def never_created_def empty_entry_def)
qed

text \<open>
  C1. The claim: for every requested size \<open>n \<ge> 1\<close> a successful Create produces the
  smallest odd prime \<open>\<ge> n | 1\<close> as capacity, an odd prime \<open>\<ge> 3\<close>. The code does so
  from \<open>n = 4\<close> on, but not below: \<^verbatim>\<open>isprime(1)\<close> is true, so Create(1) keeps the
  capacity 1, which is no prime; and \<^verbatim>\<open>isprime(3)\<close> is false, so Create(3) passes over
  the prime 3 and takes 5.
\<close>

theorem htab_create_1_and_3:
  "htab_create True 1 (Some never_created) =
     Inr (True, Some \<lparr>table = Some (replicate 2 empty_entry), size_htab = 1, filled = 0\<rparr>)
   \<and> htab_create True 3 (Some never_created) =
     Inr (True, Some \<lparr>table = Some (replicate 6 empty_entry), size_htab = 5, filled = 0\<rparr>)"
  by (simp add: htab_eval)

subsection \<open>The invariant\<close>

lemma table_hash_neq_0 [simp]: "table_hash r sz \<noteq> 0"
  by (simp add: table_hash_def Let_def)

lemma filter_update_free:
  assumes "i < length xs" "\<not> P (xs ! i)" "P e"
  shows "length (filter P (xs[i := e])) = Suc (length (filter P xs))"
  using assms
proof (induction xs arbitrary: i)
  case Nil
  then show ?case by simp
next
  case (Cons x xs)
  then show ?case by (cases i) auto
qed

lemma filter_all_from_1:
  assumes "length xs = c + 1" "\<And>i. 1 \<le> i \<Longrightarrow> i \<le> c \<Longrightarrow> P (xs ! i)"
  shows "c \<le> length (filter P xs)"
proof -
  have "{1..c} \<subseteq> {i. i < length xs \<and> P (xs ! i)}" using assms by auto
  then have "card {1..c} \<le> card {i. i < length xs \<and> P (xs ! i)}"
    by (intro card_mono) auto
  then show ?thesis by (simp add: length_filter_conv_card)
qed

lemma no_match_if_new:
  assumes "list_all (slot_ok sz) tbl" "cstring s \<notin> {k. Some k \<in> set (map str tbl)}" "i < length tbl"
  shows "\<not> match_at tbl (table_hash (main_hash s) sz) s i"
proof
  assume m: "match_at tbl (table_hash (main_hash s) sz) s i"
  from assms(1,3) have ok: "slot_ok sz (tbl ! i)" by (simp add: list_all_length)
  show False
  proof (cases "str (tbl ! i)")
    case None
    with ok m show ?thesis by (simp add: slot_ok_def match_at_def)
  next
    case (Some k)
    with ok m have "cstring s = k" by (simp add: slot_ok_def match_at_def safe_strcmp_def)
    moreover have "Some k \<in> set (map str tbl)" using Some assms(3) by (metis length_map nth_map nth_mem)
    ultimately show ?thesis using assms(2) by simp
  qed
qed

lemma htab_search_prime:
  fixes sz :: uint32_t and s :: string and tbl :: "htab_entry list"
  assumes sz: "3 \<le> sz" and pr: "prime_nat (unat sz)" and len: "length tbl = unat sz + 1"
  shows "\<exists>idx. 1 \<le> unat idx \<and> unat idx \<le> unat sz \<and>
     (htab_search tbl sz s = Inr (Existing idx)
        \<and> match_at tbl (table_hash (main_hash s) sz) s (unat idx)
      \<or> htab_search tbl sz s = Inr (NewEntry idx)
        \<and> (used (tbl ! unat idx) = 0 \<or> (\<forall>i. 1 \<le> i \<and> i \<le> unat sz \<longrightarrow> used (tbl ! i) \<noteq> 0)))"
proof -
  define hval where "hval = table_hash (main_hash s) sz"
  define hval2 where "hval2 = 1 + hval mod (sz - 2)"
  define pos where "pos = probe_pos (unat sz) (unat hval2) (unat hval)"
  have c3: "3 \<le> unat sz" using sz by unat_arith
  then have sz0: "sz \<noteq> 0" by auto
  have hv: "1 \<le> unat hval" "unat hval \<le> unat sz"
    using table_hash_range [OF sz0, of "main_hash s"] by (simp_all add: hval_def)
  have h2: "1 \<le> unat hval2" "unat hval2 < unat sz"
    using hval2_range(2,3) [OF sz, of hval] c3 by (simp_all add: hval2_def)
  have rng: "1 \<le> pos k \<and> pos k \<le> unat sz" for k
    unfolding pos_def using probe_pos_range [OF hv h2] by simp
  from sz len show ?thesis
  proof (cases rule: htab_search_cases [where s = s])
    case home_free
    then show ?thesis using hv by (auto simp: hval_def)
  next
    case home_match
    then show ?thesis using hv by (auto simp: hval_def)
  next
    case (probed J)
    have "pos J < 4294967296" using rng [of J] unat_lt32 [of sz] by simp
    then have u: "unat (of_nat (pos J) :: uint32_t) = pos J" by (rule unat_of_nat32)
    have res: "htab_search tbl sz s = Inr (exit_at tbl hval s (pos J))"
      using probed(7) by (simp add: pos_def hval_def hval2_def)
    show ?thesis
    proof (cases "pos J \<noteq> unat hval \<and> match_at tbl hval s (pos J)")
      case True
      with res u rng [of J] show ?thesis
        by (intro exI [of _ "of_nat (pos J)"]) (simp add: exit_at_def hval_def)
    next
      case nm: False
      then have res: "htab_search tbl sz s = Inr (NewEntry (of_nat (pos J)))"
        using res by (simp add: exit_at_def)
    show ?thesis
    proof (cases "used (tbl ! pos J) = 0")
      case True
      with res u rng [of J] show ?thesis by auto
    next
      case False
      with probed(5) nm have wrap: "pos J = unat hval"
        by (auto simp: probe_stops_def pos_def hval_def hval2_def)
      have "J = unat sz"
      proof (rule ccontr)
        assume "J \<noteq> unat sz"
        with probed(4) have "J < unat sz" by simp
        from probe_pos_not_start [OF pr h2 probed(3) this, of "unat hval"] wrap
        show False by (simp add: pos_def)
      qed
      have all: "used (tbl ! i) \<noteq> 0" if "1 \<le> i" "i \<le> unat sz" for i
      proof -
        from that have "i \<in> pos ` {0..<unat sz}"
          unfolding pos_def using probe_pos_cover [OF pr hv h2] by simp
        then obtain k where k: "k < unat sz" "i = pos k" by auto
        show ?thesis
        proof (cases "k = 0")
          case True
          with k probed(1) show ?thesis by (simp add: pos_def hval_def)
        next
          case False
          with k \<open>J = unat sz\<close> have "\<not> probe_stops tbl hval s (pos k)"
            using probed(6) [of k] by (simp add: pos_def hval_def hval2_def)
          with k show ?thesis by (simp add: probe_stops_def)
        qed
      qed
      with res u rng [of J] show ?thesis by auto
    qed
    qed
  qed
qed

lemma sdbm_cstring: "sdbm (cstring s) r = sdbm s r"
  by (induction s arbitrary: r) (simp_all add: cstring_def)

lemma main_hash_cstring [simp]: "main_hash (cstring s) = main_hash s"
  by (simp add: main_hash_def sdbm_cstring)

lemma htab_inv_full:
  assumes "htab_inv h" "table h = Some tbl"
    and "\<forall>i. 1 \<le> i \<and> i \<le> unat (size_htab h) \<longrightarrow> used (tbl ! i) \<noteq> 0"
  shows "\<not> filled h < size_htab h"
proof -
  from assms(1,2) have len: "length tbl = unat (size_htab h) + 1"
    and cnt: "unat (filled h) = length (filter (\<lambda>e. used e \<noteq> 0) tbl)"
    by (simp_all add: htab_inv_def)
  have "unat (size_htab h) \<le> length (filter (\<lambda>e. used e \<noteq> 0) tbl)"
    using len assms(3) by (intro filter_all_from_1) auto
  with cnt show ?thesis by (simp add: word_less_nat_alt)
qed

lemma htab_hash_prime_cases:
  assumes inv: "htab_inv h" and tbl: "table h = Some tbl"
    and sz: "3 \<le> size_htab h" "prime_nat (unat (size_htab h))"
  shows "\<exists>idx. 1 \<le> unat idx \<and> unat idx \<le> unat (size_htab h) \<and>
    (match_at tbl (table_hash (main_hash s) (size_htab h)) s (unat idx)
       \<and> (\<forall>ok. htab_hash ok (Some s) (Some h) = Inr (idx, Some h))
     \<or> \<not> filled h < size_htab h \<and> (\<forall>ok. htab_hash ok (Some s) (Some h) = Inr (0, Some h))
     \<or> filled h < size_htab h \<and> used (tbl ! unat idx) = 0
       \<and> htab_hash True (Some s) (Some h) = Inr (idx, Some (h\<lparr>table := Some (tbl[unat idx :=
              \<lparr>used = table_hash (main_hash s) (size_htab h), str = Some (cstring s)\<rparr>]),
            filled := filled h + 1\<rparr>)))"
proof -
  from inv tbl have len: "length tbl = unat (size_htab h) + 1" by (simp add: htab_inv_def)
  from htab_search_prime [OF sz len, of s] obtain idx
    where idx: "1 \<le> unat idx" "unat idx \<le> unat (size_htab h)"
      and r: "htab_search tbl (size_htab h) s = Inr (Existing idx)
          \<and> match_at tbl (table_hash (main_hash s) (size_htab h)) s (unat idx)
        \<or> htab_search tbl (size_htab h) s = Inr (NewEntry idx)
          \<and> (used (tbl ! unat idx) = 0
              \<or> (\<forall>i. 1 \<le> i \<and> i \<le> unat (size_htab h) \<longrightarrow> used (tbl ! i) \<noteq> 0))"
    by blast
  from r show ?thesis
  proof
    assume "htab_search tbl (size_htab h) s = Inr (Existing idx)
          \<and> match_at tbl (table_hash (main_hash s) (size_htab h)) s (unat idx)"
    with idx tbl show ?thesis by (intro exI [of _ idx]) (simp add: htab_hash_def)
  next
    assume n: "htab_search tbl (size_htab h) s = Inr (NewEntry idx)
          \<and> (used (tbl ! unat idx) = 0
              \<or> (\<forall>i. 1 \<le> i \<and> i \<le> unat (size_htab h) \<longrightarrow> used (tbl ! i) \<noteq> 0))"
    show ?thesis
    proof (cases "filled h < size_htab h")
      case False
      with n idx tbl show ?thesis by (intro exI [of _ idx]) (simp add: htab_hash_def)
    next
      case True
      with htab_inv_full [OF inv tbl] n have "used (tbl ! unat idx) = 0" by blast
      with n idx tbl True show ?thesis
        by (intro exI [of _ idx]) (simp add: htab_hash_def Let_def)
    qed
  qed
qed

lemma key_in_table_iff:
  "Some k \<in> set (map str xs) \<longleftrightarrow> (\<exists>j < length xs. str (xs ! j) = Some k)"
proof -
  have "Some k \<in> set (map str xs) \<longleftrightarrow> (\<exists>j < length (map str xs). map str xs ! j = Some k)"
    by (simp only: in_set_conv_nth)
  then show ?thesis by auto
qed

lemma htab_inv_insert:
  fixes h :: htab_table and s :: string and i :: nat and tbl :: "htab_entry list"
  assumes inv: "htab_inv h" and tbl: "table h = Some tbl"
    and i: "1 \<le> i" "i \<le> unat (size_htab h)" "used (tbl ! i) = 0"
    and nf: "filled h < size_htab h"
  defines "h' \<equiv> h\<lparr>table := Some (tbl[i :=
       \<lparr>used = table_hash (main_hash s) (size_htab h), str = Some (cstring s)\<rparr>]),
     filled := filled h + 1\<rparr>"
  shows "htab_inv h'" "htab_keys h' = insert (cstring s) (htab_keys h)"
proof -
  define e where "e = \<lparr>used = table_hash (main_hash s) (size_htab h), str = Some (cstring s)\<rparr>"
  from inv tbl have len: "length tbl = unat (size_htab h) + 1"
    and ok: "list_all (slot_ok (size_htab h)) tbl" and z: "used (tbl ! 0) = 0"
    and cnt: "unat (filled h) = length (filter (\<lambda>e. used e \<noteq> 0) tbl)"
    by (simp_all add: htab_inv_def)
  have il: "i < length tbl" using i len by simp
  have "slot_ok (size_htab h) e" by (simp add: slot_ok_def e_def)
  with ok have ok': "list_all (slot_ok (size_htab h)) (tbl[i := e])"
    by (auto simp: list_all_iff dest: set_update_subset_insert [THEN subsetD])
  have "filled h \<noteq> - 1" using nf by (metis word_order.extremum_strict word_n1_ge leD)
  then have f: "unat (filled h + 1) = unat (filled h) + 1"
    by (simp add: add.commute eq_neg_iff_add_eq_0 unatSuc)
  have "length (filter (\<lambda>e. used e \<noteq> 0) (tbl[i := e])) = Suc (length (filter (\<lambda>e. used e \<noteq> 0) tbl))"
    using il i(3) by (intro filter_update_free) (simp_all add: e_def)
  with cnt f have cnt': "unat (filled h + 1) = length (filter (\<lambda>e. used e \<noteq> 0) (tbl[i := e]))"
    by simp
  show "htab_inv h'"
    using len ok' z cnt' i(1) by (simp add: htab_inv_def h'_def e_def [symmetric])
  have "str (tbl ! i) = None"
    using ok il i(3) by (auto simp: list_all_length slot_ok_def split: option.splits)
  have "(\<exists>j < length tbl. str ((tbl[i := e]) ! j) = Some k)
      \<longleftrightarrow> k = cstring s \<or> (\<exists>j < length tbl. str (tbl ! j) = Some k)" for k
  proof
    assume "\<exists>j < length tbl. str ((tbl[i := e]) ! j) = Some k"
    then obtain j where j: "j < length tbl" "str ((tbl[i := e]) ! j) = Some k" by blast
    then show "k = cstring s \<or> (\<exists>j < length tbl. str (tbl ! j) = Some k)"
      by (cases "j = i") (auto simp: e_def)
  next
    assume "k = cstring s \<or> (\<exists>j < length tbl. str (tbl ! j) = Some k)"
    then show "\<exists>j < length tbl. str ((tbl[i := e]) ! j) = Some k"
    proof
      assume "k = cstring s"
      then have "str ((tbl[i := e]) ! i) = Some k" using il by (simp add: e_def)
      with il show ?thesis by blast
    next
      assume "\<exists>j < length tbl. str (tbl ! j) = Some k"
      then obtain j where j: "j < length tbl" "str (tbl ! j) = Some k" by blast
      with \<open>str (tbl ! i) = None\<close> have "j \<noteq> i" by auto
      with j have "str ((tbl[i := e]) ! j) = Some k" by simp
      with j show ?thesis by blast
    qed
  qed
  then have "{k. Some k \<in> set (map str (tbl[i := e]))} = insert (cstring s) {k. Some k \<in> set (map str tbl)}"
    unfolding key_in_table_iff by auto
  then show "htab_keys h' = insert (cstring s) (htab_keys h)"
    using tbl by (simp add: htab_keys_def h'_def e_def [symmetric])
qed

lemma htab_hash_new_key:
  assumes inv: "htab_inv h" and sz: "3 \<le> size_htab h" "prime_nat (unat (size_htab h))"
    and new: "cstring s \<notin> htab_keys h"
  shows "filled h < size_htab h \<Longrightarrow>
      \<exists>idx h'. htab_hash True (Some s) (Some h) = Inr (idx, Some h') \<and> idx \<noteq> 0 \<and> htab_inv h'
        \<and> size_htab h' = size_htab h \<and> filled h' = filled h + 1
        \<and> htab_keys h' = insert (cstring s) (htab_keys h)"
    and "\<not> filled h < size_htab h \<Longrightarrow> htab_hash ok (Some s) (Some h) = Inr (0, Some h)"
proof -
  from inv obtain tbl where tbl: "table h = Some tbl"
    by (auto simp: htab_inv_def split: option.splits)
  from inv tbl have len: "length tbl = unat (size_htab h) + 1"
    and slots: "list_all (slot_ok (size_htab h)) tbl"
    by (simp_all add: htab_inv_def)
  have nomatch: "\<not> match_at tbl (table_hash (main_hash s) (size_htab h)) s i" if "i < length tbl" for i
    using slots _ that by (rule no_match_if_new) (use new tbl in \<open>simp add: htab_keys_def\<close>)
  from htab_hash_prime_cases [OF inv tbl sz, of s] obtain idx
    where idx: "1 \<le> unat idx" "unat idx \<le> unat (size_htab h)"
      and r: "\<not> filled h < size_htab h \<and> (\<forall>ok. htab_hash ok (Some s) (Some h) = Inr (0, Some h))
     \<or> filled h < size_htab h \<and> used (tbl ! unat idx) = 0
       \<and> htab_hash True (Some s) (Some h) = Inr (idx, Some (h\<lparr>table := Some (tbl[unat idx :=
              \<lparr>used = table_hash (main_hash s) (size_htab h), str = Some (cstring s)\<rparr>]),
            filled := filled h + 1\<rparr>))"
    using nomatch len by (metis Suc_eq_plus1 less_Suc_eq_le)
  show "htab_hash ok (Some s) (Some h) = Inr (0, Some h)" if "\<not> filled h < size_htab h"
    using r that by blast
  show "\<exists>idx h'. htab_hash True (Some s) (Some h) = Inr (idx, Some h') \<and> idx \<noteq> 0 \<and> htab_inv h'
        \<and> size_htab h' = size_htab h \<and> filled h' = filled h + 1
        \<and> htab_keys h' = insert (cstring s) (htab_keys h)" if nf: "filled h < size_htab h"
  proof -
    define h' where "h' = h\<lparr>table := Some (tbl[unat idx :=
              \<lparr>used = table_hash (main_hash s) (size_htab h), str = Some (cstring s)\<rparr>]),
            filled := filled h + 1\<rparr>"
    from r nf have free: "used (tbl ! unat idx) = 0"
      and res: "htab_hash True (Some s) (Some h) = Inr (idx, Some h')"
      by (auto simp: h'_def)
    have "htab_inv h'" "htab_keys h' = insert (cstring s) (htab_keys h)"
      unfolding h'_def using htab_inv_insert [OF inv tbl idx free nf, of s] by simp_all
    moreover have "idx \<noteq> 0" using idx(1) by auto
    moreover have "size_htab h' = size_htab h" "filled h' = filled h + 1" by (simp_all add: h'_def)
    ultimately show ?thesis using res by blast
  qed
qed

text \<open>
  A search that ends at an existing entry has passed only slots with a tag, so it ends at
  the same entry in every table that has the same entries in the slots with a tag.
\<close>

lemma probe_agree:
  "hval \<noteq> 0 \<Longrightarrow> length tbl' = length tbl
    \<Longrightarrow> (\<And>j. j < length tbl \<Longrightarrow> used (tbl ! j) \<noteq> 0 \<Longrightarrow> tbl' ! j = tbl ! j)
    \<Longrightarrow> probe n tbl sz s hval hval2 idx = Inr (Existing i)
    \<Longrightarrow> probe n tbl' sz s hval hval2 idx = Inr (Existing i)"
proof (induction n tbl sz s hval hval2 idx rule: probe.induct)
  case (1 n tbl sz s hval hval2 idx)
  define idx' where "idx' = (if idx \<le> hval2 then sz + idx - hval2 else idx - hval2)"
  from "1.prems"(1,4) have n: "n \<noteq> 0" and ne: "idx' \<noteq> hval" and len: "\<not> length tbl \<le> unat idx'"
    and u: "used (tbl ! unat idx') \<noteq> 0"
    by (auto simp: probe.simps [of n tbl] Let_def idx'_def split: if_splits)
  from "1.prems"(3) [of "unat idx'"] len u have same: "tbl' ! unat idx' = tbl ! unat idx'" by simp
  show ?case
  proof (cases "used (tbl ! unat idx') = hval \<and> safe_strcmp (Some s) (str (tbl ! unat idx'))")
    case True
    with "1.prems"(4) n ne len have "i = idx'"
      by (simp add: probe.simps [of n tbl] Let_def idx'_def [symmetric])
    with True n ne len same "1.prems"(2) show ?thesis
      by (simp add: probe.simps [of n tbl'] Let_def idx'_def [symmetric])
  next
    case False
    with "1.prems"(4) n ne len u have r: "probe (n - 1) tbl sz s hval hval2 idx' = Inr (Existing i)"
      by (simp add: probe.simps [of n tbl] Let_def idx'_def [symmetric])
    have "probe (n - 1) tbl' sz s hval hval2 idx' = Inr (Existing i)"
      using n ne len False u "1.prems"(1,2,3) r
      by (intro "1.IH" [OF n idx'_def]) auto
    with False n ne len same u "1.prems"(2) show ?thesis
      by (auto simp: probe.simps [of n tbl'] Let_def idx'_def [symmetric])
  qed
qed

lemma htab_search_agree:
  assumes "htab_search tbl sz s = Inr (Existing i)" "length tbl' = length tbl"
    and same: "\<And>j. j < length tbl \<Longrightarrow> used (tbl ! j) \<noteq> 0 \<Longrightarrow> tbl' ! j = tbl ! j"
  shows "htab_search tbl' sz s = Inr (Existing i)"
proof -
  define hval where "hval = table_hash (main_hash s) sz"
  from assms(1) have sz0: "sz \<noteq> 0" and len: "\<not> length tbl \<le> unat hval"
    and u: "used (tbl ! unat hval) \<noteq> 0"
    by (auto simp: htab_search_def Let_def hval_def split: if_splits)
  from same [of "unat hval"] len u have h: "tbl' ! unat hval = tbl ! unat hval" by simp
  have h0: "hval \<noteq> 0" by (simp add: hval_def)
  show ?thesis
  proof (cases "used (tbl ! unat hval) = hval \<and> safe_strcmp (Some s) (str (tbl ! unat hval))")
    case True
    with assms(1,2) sz0 len u h show ?thesis
      by (simp add: htab_search_def Let_def hval_def [symmetric])
  next
    case False
    with assms(1) sz0 len u have z: "sz - 2 \<noteq> 0"
      and p: "probe 4294967296 tbl sz s hval (1 + hval mod (sz - 2)) hval = Inr (Existing i)"
      by (auto simp: htab_search_def Let_def hval_def [symmetric] split: if_splits)
    from probe_agree [OF h0 assms(2) same p]
    have "probe 4294967296 tbl' sz s hval (1 + hval mod (sz - 2)) hval = Inr (Existing i)" by simp
    with False sz0 len u h z assms(2) show ?thesis
      by (auto simp: htab_search_def Let_def hval_def [symmetric])
  qed
qed

lemma htab_hash_found:
  assumes "table h = Some tbl" "htab_search tbl (size_htab h) s = Inr (Existing i)"
  shows "htab_hash ok (Some s) (Some h) = Inr (i, Some h)"
  using assms by (simp add: htab_hash_def)

lemma htab_hash_seq_found:
  assumes "table h = Some tbl"
  shows "map (htab_search tbl (size_htab h)) keys = map (\<lambda>i. Inr (Existing i)) idxs
    \<Longrightarrow> htab_hash_seq (map (\<lambda>s. (ok, Some s)) keys) (Some h) = Inr (idxs, Some h)"
proof (induction keys arbitrary: idxs)
  case Nil
  then show ?case by simp
next
  case (Cons s keys)
  then obtain i is' where i: "idxs = i # is'" by (cases idxs) auto
  with Cons.prems have s: "htab_search tbl (size_htab h) s = Inr (Existing i)"
    and r: "map (htab_search tbl (size_htab h)) keys = map (\<lambda>i. Inr (Existing i)) is'"
    by simp_all
  from htab_hash_found [OF assms s, of ok] Cons.IH [OF r] i show ?case by simp
qed

text \<open>
  With the invariant, at a prime capacity: a key that the table does not hold goes to a
  slot without tag, and a run of such inserts leaves every key in the slot of the index
  that its call returned, where the search finds it.
\<close>

lemma htab_hash_new_key_slot:
  assumes inv: "htab_inv h" and tbl: "table h = Some tbl"
    and sz: "3 \<le> size_htab h" "prime_nat (unat (size_htab h))"
    and new: "cstring s \<notin> htab_keys h" and nf: "filled h < size_htab h"
  shows "\<exists>idx. 1 \<le> unat idx \<and> unat idx \<le> unat (size_htab h) \<and> used (tbl ! unat idx) = 0
      \<and> htab_search tbl (size_htab h) s = Inr (NewEntry idx)
      \<and> htab_hash True (Some s) (Some h) = Inr (idx, Some (h\<lparr>table := Some (tbl[unat idx :=
              \<lparr>used = table_hash (main_hash s) (size_htab h), str = Some (cstring s)\<rparr>]),
            filled := filled h + 1\<rparr>))"
proof -
  from inv tbl have len: "length tbl = unat (size_htab h) + 1"
    and slots: "list_all (slot_ok (size_htab h)) tbl"
    by (simp_all add: htab_inv_def)
  have nomatch: "\<not> match_at tbl (table_hash (main_hash s) (size_htab h)) s i" if "i < length tbl" for i
    using slots _ that by (rule no_match_if_new) (use new tbl in \<open>simp add: htab_keys_def\<close>)
  from htab_search_prime [OF sz len, of s] obtain idx
    where idx: "1 \<le> unat idx" "unat idx \<le> unat (size_htab h)"
      and r: "htab_search tbl (size_htab h) s = Inr (Existing idx)
          \<and> match_at tbl (table_hash (main_hash s) (size_htab h)) s (unat idx)
        \<or> htab_search tbl (size_htab h) s = Inr (NewEntry idx)
          \<and> (used (tbl ! unat idx) = 0
              \<or> (\<forall>i. 1 \<le> i \<and> i \<le> unat (size_htab h) \<longrightarrow> used (tbl ! i) \<noteq> 0))"
    by blast
  from idx(2) len have "unat idx < length tbl" by simp
  with r nomatch have n: "htab_search tbl (size_htab h) s = Inr (NewEntry idx)"
    and d: "used (tbl ! unat idx) = 0 \<or> (\<forall>i. 1 \<le> i \<and> i \<le> unat (size_htab h) \<longrightarrow> used (tbl ! i) \<noteq> 0)"
    by blast+
  from d htab_inv_full [OF inv tbl] nf have free: "used (tbl ! unat idx) = 0" by blast
  from n tbl nf have "htab_hash True (Some s) (Some h) = Inr (idx, Some (h\<lparr>table := Some (tbl[unat idx :=
              \<lparr>used = table_hash (main_hash s) (size_htab h), str = Some (cstring s)\<rparr>]),
            filled := filled h + 1\<rparr>))"
    by (simp add: htab_hash_def Let_def)
  with idx free n show ?thesis by blast
qed

lemma htab_hash_seq_stores_keys:
  fixes sz :: uint32_t
  assumes sz: "3 \<le> sz" "prime_nat (unat sz)"
  shows "htab_inv h \<Longrightarrow> table h = Some tbl \<Longrightarrow> size_htab h = sz \<Longrightarrow> distinct (map cstring keys)
    \<Longrightarrow> cstring ` set keys \<inter> htab_keys h = {} \<Longrightarrow> unat (filled h) + length keys \<le> unat sz
    \<Longrightarrow> \<exists>idxs h' tbl'. htab_hash_seq (map (\<lambda>s. (True, Some s)) keys) (Some h) = Inr (idxs, Some h')
      \<and> table h' = Some tbl' \<and> length tbl' = length tbl
      \<and> (\<forall>j. j < length tbl \<and> used (tbl ! j) \<noteq> 0 \<longrightarrow> tbl' ! j = tbl ! j)
      \<and> (\<forall>i \<in> set idxs. 1 \<le> unat i \<and> unat i \<le> unat sz)
      \<and> length idxs = length keys \<and> htab_inv h' \<and> size_htab h' = sz
      \<and> unat (filled h') = unat (filled h) + length keys
      \<and> htab_keys h' = htab_keys h \<union> cstring ` set keys
      \<and> map (\<lambda>i. str (tbl' ! unat i)) idxs = map (\<lambda>s. Some (cstring s)) keys
      \<and> map (htab_search tbl' sz) keys = map (\<lambda>i. Inr (Existing i)) idxs"
proof (induction keys arbitrary: h tbl)
  case Nil
  then show ?case by simp
next
  case (Cons s keys)
  define e where "e = \<lparr>used = table_hash (main_hash s) sz, str = Some (cstring s)\<rparr>"
  from Cons.prems have nf: "filled h < size_htab h" by (simp add: word_less_nat_alt)
  have new: "cstring s \<notin> htab_keys h" using Cons.prems(5) by auto
  from Cons.prems(1,2) have len: "length tbl = unat sz + 1"
    using Cons.prems(3) by (simp add: htab_inv_def)
  from htab_hash_new_key_slot [OF Cons.prems(1,2) _ _ new nf] sz Cons.prems(3)
  obtain idx where idx: "1 \<le> unat idx" "unat idx \<le> unat sz" "used (tbl ! unat idx) = 0"
      "htab_search tbl sz s = Inr (NewEntry idx)"
      "htab_hash True (Some s) (Some h) =
         Inr (idx, Some (h\<lparr>table := Some (tbl[unat idx := e]), filled := filled h + 1\<rparr>))"
    unfolding e_def by auto
  define h1 where "h1 = h\<lparr>table := Some (tbl[unat idx := e]), filled := filled h + 1\<rparr>"
  have h1: "htab_inv h1" "htab_keys h1 = insert (cstring s) (htab_keys h)"
    using htab_inv_insert [OF Cons.prems(1,2) idx(1) _ idx(3) nf, of s] idx(2) Cons.prems(3)
    by (simp_all add: h1_def e_def)
  have t1: "table h1 = Some (tbl[unat idx := e])" "size_htab h1 = sz" "filled h1 = filled h + 1"
    using Cons.prems(3) by (simp_all add: h1_def)
  have "filled h \<noteq> - 1" using nf by (metis word_order.extremum_strict word_n1_ge leD)
  then have f: "unat (filled h1) = unat (filled h) + 1"
    using t1(3) by (simp add: add.commute eq_neg_iff_add_eq_0 unatSuc)
  have "cstring ` set keys \<inter> htab_keys h1 = {}"
    using Cons.prems(4,5) h1(2) by auto
  moreover have "unat (filled h1) + length keys \<le> unat sz" using Cons.prems(6) f by simp
  moreover have "distinct (map cstring keys)" using Cons.prems(4) by simp
  ultimately obtain idxs h' tbl'
    where r: "htab_hash_seq (map (\<lambda>s. (True, Some s)) keys) (Some h1) = Inr (idxs, Some h')"
      "table h' = Some tbl'" "length tbl' = length (tbl[unat idx := e])"
      "\<forall>j. j < length (tbl[unat idx := e]) \<and> used ((tbl[unat idx := e]) ! j) \<noteq> 0
          \<longrightarrow> tbl' ! j = (tbl[unat idx := e]) ! j"
      "\<forall>i \<in> set idxs. 1 \<le> unat i \<and> unat i \<le> unat sz"
      "length idxs = length keys" "htab_inv h'" "size_htab h' = sz"
      "unat (filled h') = unat (filled h1) + length keys"
      "htab_keys h' = htab_keys h1 \<union> cstring ` set keys"
      "map (\<lambda>i. str (tbl' ! unat i)) idxs = map (\<lambda>s. Some (cstring s)) keys"
      "map (htab_search tbl' sz) keys = map (\<lambda>i. Inr (Existing i)) idxs"
    using Cons.IH [OF h1(1) t1(1,2)] by blast
  have il: "unat idx < length tbl" using idx(2) len by simp
  have at: "(tbl[unat idx := e]) ! unat idx = e" using il by simp
  have ue: "used e \<noteq> 0" by (simp add: e_def)
  from r(4) at ue il have here: "tbl' ! unat idx = e" by simp
  have keep: "tbl' ! j = tbl ! j" if "j < length tbl" "used (tbl ! j) \<noteq> 0" for j
  proof -
    from that idx(3) have "j \<noteq> unat idx" by auto
    then have "(tbl[unat idx := e]) ! j = tbl ! j" by simp
    with r(4) that show ?thesis by simp
  qed
  have "htab_search (tbl[unat idx := e]) sz s = Inr (Existing idx)"
    unfolding e_def using idx(4) by (rule htab_search_after_insert)
  then have found: "htab_search tbl' sz s = Inr (Existing idx)"
    using r(3) by (rule htab_search_agree) (use r(4) in blast)
  have "htab_hash_seq (map (\<lambda>s. (True, Some s)) (s # keys)) (Some h) = Inr (idx # idxs, Some h')"
    using idx(5) r(1) by (simp add: h1_def)
  moreover have "\<forall>i \<in> set (idx # idxs). 1 \<le> unat i \<and> unat i \<le> unat sz" using idx(1,2) r(5) by simp
  moreover have "htab_keys h' = htab_keys h \<union> cstring ` set (s # keys)" using r(10) h1(2) by auto
  moreover have "unat (filled h') = unat (filled h) + length (s # keys)" using r(9) f by simp
  moreover have "map (\<lambda>i. str (tbl' ! unat i)) (idx # idxs) = map (\<lambda>s. Some (cstring s)) (s # keys)"
    using r(11) here by (simp add: e_def)
  moreover have "map (htab_search tbl' sz) (s # keys) = map (\<lambda>i. Inr (Existing i)) (idx # idxs)"
    using r(12) found by simp
  moreover have "length tbl' = length tbl" using r(3) by simp
  moreover have "\<forall>j. j < length tbl \<and> used (tbl ! j) \<noteq> 0 \<longrightarrow> tbl' ! j = tbl ! j"
    using keep by blast
  moreover have "length (idx # idxs) = length (s # keys)" using r(6) by simp
  ultimately show ?case using r(2,7,8)
    by (intro exI [of _ "idx # idxs"] exI [of _ h'] exI [of _ tbl']) blast
qed

lemma htab_do_filled_le_size:
  assumes "filled_le_size htab" "htab_do x htab = Inr htab'"
  shows "filled_le_size htab'"
proof (cases x)
  case (Create calloc_ok nel)
  with assms show ?thesis
    by (auto simp: filled_le_size_def htab_create_def Let_def
        split: option.splits sum.splits if_splits)
next
  case Destroy
  with assms show ?thesis
    by (auto simp: filled_le_size_def htab_destroy_def split: option.splits if_splits)
next
  case (Hash malloc_ok s)
  have "x + 1 \<le> y" if "x < y" for x y :: uint32_t
    using that by (simp add: inc_le)
  with Hash assms show ?thesis
    by (auto simp: filled_le_size_def htab_hash_def Let_def
        split: option.splits sum.splits probe_exit.splits if_splits)
qed

lemma htab_run_filled_le_size:
  "filled_le_size htab \<Longrightarrow> htab_run ops htab = Inr htab' \<Longrightarrow> filled_le_size htab'"
proof (induction ops arbitrary: htab)
  case Nil
  then show ?case by simp
next
  case (Cons x ops)
  then show ?case
    by (cases "htab_do x htab") (auto dest: htab_do_filled_le_size)
qed

lemma htab_inv_fresh:
  assumes "table h = Some (replicate (unat (size_htab h) + 1) empty_entry)" "filled h = 0"
  shows "htab_inv h" "htab_keys h = {}"
  using assms by (auto simp: htab_inv_def htab_keys_def empty_entry_def slot_ok_def list_all_iff)

lemma table_hash_1 [simp]: "table_hash r 1 = 1"
  by (simp add: table_hash_def)

lemma capacity_1:
  assumes "table h = Some [empty_entry, empty_entry]" "size_htab h = 1" "filled h = 0"
    and "cstring k \<noteq> cstring s"
  defines "h' \<equiv> h\<lparr>table := Some [empty_entry, \<lparr>used = 1, str = Some (cstring s)\<rparr>], filled := 1\<rparr>"
  shows "htab_hash True (Some s) (Some h) = Inr (1, Some h')"
    and "htab_hash ok (Some k) (Some h') = Inr (0, Some h')"
proof -
  have "htab_search [empty_entry, empty_entry] 1 s = Inr (NewEntry 1)"
    by (simp add: htab_search_def empty_entry_def)
  with assms(1-3) show "htab_hash True (Some s) (Some h) = Inr (1, Some h')"
    by (simp add: htab_hash_def h'_def)
  have "probe 4294967296 [empty_entry, \<lparr>used = 1, str = Some (cstring s)\<rparr>] 1 k 1 2 1 = Inr (NewEntry 0)"
    by (simp add: probe.simps empty_entry_def)
  moreover have "(1::uint32_t) + 1 mod (1 - 2) = 2" by (simp add: word32_minus_1)
  ultimately have "htab_search [empty_entry, \<lparr>used = 1, str = Some (cstring s)\<rparr>] 1 k = Inr (NewEntry 0)"
    using assms(4) by (simp add: htab_search_def safe_strcmp_def)
  with assms(2) show "htab_hash ok (Some k) (Some h') = Inr (0, Some h')"
    by (simp add: htab_hash_def h'_def)
qed

lemma htab_inv_filled_le:
  assumes "htab_inv h"
  shows "filled h \<le> size_htab h"
proof -
  from assms obtain tbl where tbl: "table h = Some tbl" "length tbl = unat (size_htab h) + 1"
      "used (tbl ! 0) = 0" "unat (filled h) = length (filter (\<lambda>e. used e \<noteq> 0) tbl)"
    by (auto simp: htab_inv_def split: option.splits)
  then obtain x xs where x: "tbl = x # xs" by (cases tbl) auto
  with tbl(3) have "length (filter (\<lambda>e. used e \<noteq> 0) tbl) = length (filter (\<lambda>e. used e \<noteq> 0) xs)"
    by simp
  also have "\<dots> \<le> length xs" by (rule length_filter_le)
  finally show ?thesis using tbl(2,4) x by (simp add: word_le_nat_alt)
qed

text \<open>
  With the invariant, at a prime capacity: an insert whose allocation succeeds keeps the
  invariant, and the search comes back to its start index only on a full table.
\<close>

lemma htab_hash_keeps_inv:
  assumes "htab_inv h" "3 \<le> size_htab h" "prime_nat (unat (size_htab h))"
  shows "\<exists>i h'. htab_hash True (Some s) (Some h) = Inr (i, Some h') \<and> htab_inv h'"
proof -
  from assms(1) obtain tbl where tbl: "table h = Some tbl"
    by (auto simp: htab_inv_def split: option.splits)
  from htab_hash_prime_cases [OF assms(1) tbl assms(2,3), of s] obtain idx
    where idx: "1 \<le> unat idx" "unat idx \<le> unat (size_htab h)"
      and r: "htab_hash True (Some s) (Some h) = Inr (idx, Some h)
     \<or> htab_hash True (Some s) (Some h) = Inr (0, Some h)
     \<or> filled h < size_htab h \<and> used (tbl ! unat idx) = 0
       \<and> htab_hash True (Some s) (Some h) = Inr (idx, Some (h\<lparr>table := Some (tbl[unat idx :=
              \<lparr>used = table_hash (main_hash s) (size_htab h), str = Some (cstring s)\<rparr>]),
            filled := filled h + 1\<rparr>))"
    by blast
  from r show ?thesis
  proof (elim disjE conjE)
    assume "filled h < size_htab h" "used (tbl ! unat idx) = 0"
      and res: "htab_hash True (Some s) (Some h) = Inr (idx, Some (h\<lparr>table := Some (tbl[unat idx :=
              \<lparr>used = table_hash (main_hash s) (size_htab h), str = Some (cstring s)\<rparr>]),
            filled := filled h + 1\<rparr>))"
    with htab_inv_insert(1) [OF assms(1) tbl idx, of s] show ?thesis by blast
  qed (use assms(1) in blast)+
qed

lemma probe_exhausted_full:
  assumes inv: "htab_inv h" and tbl: "table h = Some tbl"
    and sz: "3 \<le> size_htab h" "prime_nat (unat (size_htab h))"
    and res: "htab_search tbl (size_htab h) s = Inr (NewEntry idx)" "used (tbl ! unat idx) \<noteq> 0"
  shows "filled h = size_htab h" "\<forall>i. 1 \<le> i \<and> i \<le> unat (size_htab h) \<longrightarrow> used (tbl ! i) \<noteq> 0"
proof -
  from inv tbl have len: "length tbl = unat (size_htab h) + 1" by (simp add: htab_inv_def)
  from htab_search_prime [OF sz len, of s] res
  show all: "\<forall>i. 1 \<le> i \<and> i \<le> unat (size_htab h) \<longrightarrow> used (tbl ! i) \<noteq> 0" by auto
  from htab_inv_full [OF inv tbl all] htab_inv_filled_le [OF inv]
  show "filled h = size_htab h" by simp
qed

text \<open>
  On a table of capacity at least 3, whatever its slots hold: a call returns, its index
  is at most the capacity, and slot 0 is left as it was.
\<close>

lemma htab_hash_index_range:
  assumes "htab_wf h"
  shows "\<exists>i h' tbl tbl'. htab_hash ok (Some s) (Some h) = Inr (i, Some h')
     \<and> unat i \<le> unat (size_htab h) \<and> htab_wf h'
     \<and> table h = Some tbl \<and> table h' = Some tbl' \<and> tbl' ! 0 = tbl ! 0"
proof -
  from assms obtain tbl where tbl: "table h = Some tbl" "length tbl = unat (size_htab h) + 1"
    and sz: "3 \<le> size_htab h"
    by (auto simp: htab_wf_def split: option.splits)
  from htab_search_total [OF sz tbl(2), of s] obtain e
    where e: "htab_search tbl (size_htab h) s = Inr e" "1 \<le> unat (exit_index e)"
      "unat (exit_index e) \<le> unat (size_htab h)"
    by blast
  from e(2) have "unat (exit_index e) \<noteq> 0" by simp
  with tbl sz e show ?thesis
    by (cases e) (auto simp: htab_hash_def Let_def htab_wf_def)
qed

lemma htab_hash_seq_total:
  assumes "htab_wf h" "filled h \<le> size_htab h"
  shows "\<exists>idxs r. htab_hash_seq calls (Some h) = Inr (idxs, Some r) \<and> htab_wf r
    \<and> filled r \<le> size_htab r"
  using assms
proof (induction calls arbitrary: h)
  case Nil
  then show ?case by simp
next
  case (Cons c calls)
  obtain ok key where c: "c = (ok, key)" by (cases c)
  have "\<exists>i h'. htab_hash ok key (Some h) = Inr (i, Some h') \<and> htab_wf h'"
  proof (cases key)
    case None
    with Cons.prems show ?thesis by (auto simp: htab_hash_def htab_wf_def split: option.splits)
  next
    case (Some s)
    with htab_hash_index_range [OF Cons.prems(1), of ok s] show ?thesis by blast
  qed
  then obtain i h' where h': "htab_hash ok key (Some h) = Inr (i, Some h')" "htab_wf h'"
    by blast
  have "htab_do (Hash ok key) (Some h) = Inr (Some h')" using h'(1) by simp
  moreover have "filled_le_size (Some h)" using Cons.prems(2) by (simp add: filled_le_size_def)
  ultimately have "filled_le_size (Some h')" by (rule htab_do_filled_le_size [rotated])
  then have "filled h' \<le> size_htab h'" by (simp add: filled_le_size_def)
  from Cons.IH [OF h'(2) this] obtain idxs r
    where "htab_hash_seq calls (Some h') = Inr (idxs, Some r)" "htab_wf r" "filled r \<le> size_htab r"
    by blast
  with h'(1) c show ?case by simp
qed

subsection \<open>Capacity\<close>

text \<open>
  C4. For every table that Create has produced, with capacity \<open>c\<close>: inserting \<open>c\<close>
  distinct strings, every allocation succeeding, succeeds: each call returns an index
  from 1 to \<open>c\<close>, the indices are distinct, each string is stored in the slot of its
  index, looking the strings up again returns the same indices and changes nothing, and
  the table is full. Inserting one more distinct string returns 0 and leaves the table
  as it is, whatever its allocation would do; and after every run of Create, Destroy and
  Lookup-or-Insert calls, with any allocation outcomes, \<open>filled\<close> does not exceed the
  capacity. Unless the capacity is 1, every run of Lookup-or-Insert calls on the table
  returns.
\<close>

theorem capacity_respected:
  assumes created: "htab_create True nel (Some h0) = Inr (True, Some h)"
    and keys: "distinct (map cstring keys)" "length keys = unat (size_htab h)"
    and k: "cstring k \<notin> cstring ` set keys"
  shows "(\<exists>idxs h' tbl'.
          htab_hash_seq (map (\<lambda>s. (True, Some s)) keys) (Some h) = Inr (idxs, Some h')
        \<and> length idxs = length keys \<and> 0 \<notin> set idxs \<and> distinct idxs
        \<and> (\<forall>i \<in> set idxs. unat i \<le> unat (size_htab h))
        \<and> table h' = Some tbl' \<and> length tbl' = unat (size_htab h) + 1
        \<and> map (\<lambda>i. str (tbl' ! unat i)) idxs = map (\<lambda>s. Some (cstring s)) keys
        \<and> (\<forall>ok. htab_hash_seq (map (\<lambda>s. (ok, Some s)) keys) (Some h') = Inr (idxs, Some h'))
        \<and> size_htab h' = size_htab h \<and> filled h' = size_htab h
        \<and> (\<forall>ok. htab_hash ok (Some k) (Some h') = Inr (0, Some h')))
     \<and> (htab_run ops (Some h) = Inr (Some r) \<longrightarrow> filled r \<le> size_htab r)
     \<and> (size_htab h \<noteq> 1 \<longrightarrow>
          (\<exists>idxs r. htab_hash_seq calls (Some h) = Inr (idxs, Some r) \<and> filled r \<le> size_htab r))"
proof (intro conjI)
  note c = htab_create_result [OF created]
  show "htab_run ops (Some h) = Inr (Some r) \<longrightarrow> filled r \<le> size_htab r"
  proof
    assume run: "htab_run ops (Some h) = Inr (Some r)"
    have "filled_le_size (Some h)" using c(2) by (simp add: filled_le_size_def)
    from htab_run_filled_le_size [OF this run] show "filled r \<le> size_htab r"
      by (simp add: filled_le_size_def)
  qed
  show "size_htab h \<noteq> 1 \<longrightarrow>
          (\<exists>idxs r. htab_hash_seq calls (Some h) = Inr (idxs, Some r) \<and> filled r \<le> size_htab r)"
  proof
    assume "size_htab h \<noteq> 1"
    with c(3,4) have "htab_wf h" by (simp add: htab_wf_def)
    moreover have "filled h \<le> size_htab h" using c(2) by simp
    ultimately show "\<exists>idxs r. htab_hash_seq calls (Some h) = Inr (idxs, Some r)
        \<and> filled r \<le> size_htab r"
      using htab_hash_seq_total [of h calls] by blast
  qed
  have dk: "distinct (map (\<lambda>s. Some (cstring s)) keys)"
    using keys(1) by (simp add: distinct_map inj_on_def)
  show "\<exists>idxs h' tbl'.
          htab_hash_seq (map (\<lambda>s. (True, Some s)) keys) (Some h) = Inr (idxs, Some h')
        \<and> length idxs = length keys \<and> 0 \<notin> set idxs \<and> distinct idxs
        \<and> (\<forall>i \<in> set idxs. unat i \<le> unat (size_htab h))
        \<and> table h' = Some tbl' \<and> length tbl' = unat (size_htab h) + 1
        \<and> map (\<lambda>i. str (tbl' ! unat i)) idxs = map (\<lambda>s. Some (cstring s)) keys
        \<and> (\<forall>ok. htab_hash_seq (map (\<lambda>s. (ok, Some s)) keys) (Some h') = Inr (idxs, Some h'))
        \<and> size_htab h' = size_htab h \<and> filled h' = size_htab h
        \<and> (\<forall>ok. htab_hash ok (Some k) (Some h') = Inr (0, Some h'))"
  proof (cases "size_htab h = 1")
    case True
    with keys obtain s where s: "keys = [s]" by (cases keys) auto
    with k have ks: "cstring k \<noteq> cstring s" by simp
    from c(3) True have t: "table h = Some [empty_entry, empty_entry]"
      by (simp add: numeral_2_eq_2)
    define h' where "h' = h\<lparr>table := Some [empty_entry, \<lparr>used = 1, str = Some (cstring s)\<rparr>], filled := 1\<rparr>"
    note one = capacity_1 [OF t True c(2) ks, folded h'_def]
    have again: "htab_hash ok (Some s) (Some h') = Inr (1, Some h')" for ok
      using one(1) by (rule htab_hash_again(1))
    have "htab_hash_seq (map (\<lambda>s. (True, Some s)) keys) (Some h) = Inr ([1], Some h')"
      using one(1) s by simp
    moreover have "\<forall>ok. htab_hash_seq (map (\<lambda>s. (ok, Some s)) keys) (Some h') = Inr ([1], Some h')"
      using again s by simp
    moreover have "table h' = Some [empty_entry, \<lparr>used = 1, str = Some (cstring s)\<rparr>]"
      "size_htab h' = size_htab h" "filled h' = size_htab h"
      using True by (simp_all add: h'_def)
    moreover have "map (\<lambda>i. str ([empty_entry, \<lparr>used = 1, str = Some (cstring s)\<rparr>] ! unat i)) [1::uint32_t]
        = map (\<lambda>s. Some (cstring s)) keys"
      using s by simp
    moreover have "\<forall>ok. htab_hash ok (Some k) (Some h') = Inr (0, Some h')"
      using one(2) by blast
    ultimately show ?thesis using s True
      by (intro exI [of _ "[1]"] exI [of _ h']
          exI [of _ "[empty_entry, \<lparr>used = 1, str = Some (cstring s)\<rparr>]"]) simp
  next
    case False
    with c(4) have sz: "3 \<le> size_htab h" "prime_nat (unat (size_htab h))" by auto
    note inv = htab_inv_fresh [OF c(3,2)]
    from htab_hash_seq_stores_keys [OF sz inv(1) c(3) refl keys(1)] inv(2) keys(2) c(2)
    obtain idxs h' tbl'
      where r: "htab_hash_seq (map (\<lambda>s. (True, Some s)) keys) (Some h) = Inr (idxs, Some h')"
        "table h' = Some tbl'" "length tbl' = unat (size_htab h) + 1"
        "\<forall>i \<in> set idxs. 1 \<le> unat i \<and> unat i \<le> unat (size_htab h)"
        "length idxs = length keys" "htab_inv h'" "size_htab h' = size_htab h"
        "unat (filled h') = unat (filled h) + length keys"
        "htab_keys h' = htab_keys h \<union> cstring ` set keys"
        "map (\<lambda>i. str (tbl' ! unat i)) idxs = map (\<lambda>s. Some (cstring s)) keys"
        "map (htab_search tbl' (size_htab h)) keys = map (\<lambda>i. Inr (Existing i)) idxs"
      by auto
    from r(8) keys(2) c(2) have full: "filled h' = size_htab h" by (simp add: word_unat_eq_iff)
    have "cstring k \<notin> htab_keys h'" using r(9) inv(2) k by simp
    from htab_hash_new_key(2) [OF r(6) _ _ this] sz r(7) full
    have more: "\<forall>ok. htab_hash ok (Some k) (Some h') = Inr (0, Some h')" by simp
    from r(4) have nz: "0 \<notin> set idxs" by force
    from r(4) have rng: "\<forall>i \<in> set idxs. unat i \<le> unat (size_htab h)" by simp
    from dk r(10) have "distinct (map (\<lambda>i. str (tbl' ! unat i)) idxs)" by simp
    then have di: "distinct idxs" by (simp add: distinct_map)
    from r(11) r(7) have "map (htab_search tbl' (size_htab h')) keys = map (\<lambda>i. Inr (Existing i)) idxs"
      by simp
    from htab_hash_seq_found [OF r(2) this]
    have look: "\<forall>ok. htab_hash_seq (map (\<lambda>s. (ok, Some s)) keys) (Some h') = Inr (idxs, Some h')"
      by blast
    from r(1,2,3,5,7,10) full more nz rng di look show ?thesis by blast
  qed
qed

text \<open>
  The instance at Create(4), of capacity 5, with the keys \<^verbatim>\<open>e\<close> to \<^verbatim>\<open>i\<close> (where \<^verbatim>\<open>i\<close>
  has the home index of \<^verbatim>\<open>e\<close> and is placed by the probe loop), the further key \<^verbatim>\<open>j\<close>,
  and runs of a failed insert, a successful insert and a call without key.
\<close>

theorem capacity_respected_witness:
  "htab_hash_seq (map (\<lambda>s. (True, Some s)) [''e'', ''f'', ''g'', ''h'', ''i''])
     (Some \<lparr>table = Some (replicate 6 empty_entry), size_htab = 5, filled = 0\<rparr>) =
   Inr ([1, 2, 3, 4, 5],
     Some \<lparr>table = Some [\<lparr>used = 0, str = None\<rparr>, \<lparr>used = 1, str = Some ''e''\<rparr>,
         \<lparr>used = 2, str = Some ''f''\<rparr>, \<lparr>used = 3, str = Some ''g''\<rparr>,
         \<lparr>used = 4, str = Some ''h''\<rparr>, \<lparr>used = 1, str = Some ''i''\<rparr>],
       size_htab = 5, filled = 5\<rparr>)
   \<and> htab_hash_seq (map (\<lambda>s. (False, Some s)) [''e'', ''f'', ''g'', ''h'', ''i''])
     (Some \<lparr>table = Some [\<lparr>used = 0, str = None\<rparr>, \<lparr>used = 1, str = Some ''e''\<rparr>,
         \<lparr>used = 2, str = Some ''f''\<rparr>, \<lparr>used = 3, str = Some ''g''\<rparr>,
         \<lparr>used = 4, str = Some ''h''\<rparr>, \<lparr>used = 1, str = Some ''i''\<rparr>],
       size_htab = 5, filled = 5\<rparr>) =
   Inr ([1, 2, 3, 4, 5],
     Some \<lparr>table = Some [\<lparr>used = 0, str = None\<rparr>, \<lparr>used = 1, str = Some ''e''\<rparr>,
         \<lparr>used = 2, str = Some ''f''\<rparr>, \<lparr>used = 3, str = Some ''g''\<rparr>,
         \<lparr>used = 4, str = Some ''h''\<rparr>, \<lparr>used = 1, str = Some ''i''\<rparr>],
       size_htab = 5, filled = 5\<rparr>)
   \<and> htab_hash False (Some ''j'')
     (Some \<lparr>table = Some [\<lparr>used = 0, str = None\<rparr>, \<lparr>used = 1, str = Some ''e''\<rparr>,
         \<lparr>used = 2, str = Some ''f''\<rparr>, \<lparr>used = 3, str = Some ''g''\<rparr>,
         \<lparr>used = 4, str = Some ''h''\<rparr>, \<lparr>used = 1, str = Some ''i''\<rparr>],
       size_htab = 5, filled = 5\<rparr>) =
   Inr (0,
     Some \<lparr>table = Some [\<lparr>used = 0, str = None\<rparr>, \<lparr>used = 1, str = Some ''e''\<rparr>,
         \<lparr>used = 2, str = Some ''f''\<rparr>, \<lparr>used = 3, str = Some ''g''\<rparr>,
         \<lparr>used = 4, str = Some ''h''\<rparr>, \<lparr>used = 1, str = Some ''i''\<rparr>],
       size_htab = 5, filled = 5\<rparr>)
   \<and> filled \<lparr>table = Some ((replicate 6 empty_entry)
         [2 := \<lparr>used = 2, str = None\<rparr>, 1 := \<lparr>used = 1, str = Some ''e''\<rparr>]),
       size_htab = 5, filled = 1\<rparr> \<le> 5
   \<and> (\<exists>idxs r. htab_hash_seq [(False, Some ''f''), (True, Some ''e''), (True, None)]
        (Some \<lparr>table = Some (replicate 6 empty_entry), size_htab = 5, filled = 0\<rparr>)
        = Inr (idxs, Some r) \<and> filled r \<le> size_htab r)"
proof -
  define h where "h = \<lparr>table = Some (replicate 6 empty_entry), size_htab = 5, filled = 0\<rparr>"
  define H where "H = \<lparr>table = Some [\<lparr>used = 0, str = None\<rparr>, \<lparr>used = 1, str = Some ''e''\<rparr>,
         \<lparr>used = 2, str = Some ''f''\<rparr>, \<lparr>used = 3, str = Some ''g''\<rparr>,
         \<lparr>used = 4, str = Some ''h''\<rparr>, \<lparr>used = 1, str = Some ''i''\<rparr>],
       size_htab = 5, filled = 5\<rparr>"
  define r where "r = \<lparr>table = Some ((replicate 6 empty_entry)
         [2 := \<lparr>used = 2, str = None\<rparr>, 1 := \<lparr>used = 1, str = Some ''e''\<rparr>]),
       size_htab = 5, filled = 1\<rparr>"
  have created: "htab_create True 4 (Some never_created) = Inr (True, Some h)"
    by (simp add: h_def htab_eval)
  have d: "distinct (map cstring [''e'', ''f'', ''g'', ''h'', ''i''])"
    by (simp add: cstring_def)
  have l: "length [''e'', ''f'', ''g'', ''h'', ''i''] = unat (size_htab h)"
    by (simp add: h_def)
  have k: "cstring ''j'' \<notin> cstring ` set [''e'', ''f'', ''g'', ''h'', ''i'']"
    by (simp add: cstring_def)
  have run: "htab_run [Hash False (Some ''f''), Hash True (Some ''e'')] (Some h) = Inr (Some r)"
    by (simp add: h_def r_def htab_eval)
  have ins: "htab_hash_seq (map (\<lambda>s. (True, Some s)) [''e'', ''f'', ''g'', ''h'', ''i'']) (Some h)
      = Inr ([1, 2, 3, 4, 5], Some H)"
    by (simp add: h_def H_def htab_eval)
  have n1: "size_htab h \<noteq> 1" by (simp add: h_def)
  note t = capacity_respected [OF created d l k,
      of "[Hash False (Some ''f''), Hash True (Some ''e'')]" r
        "[(False, Some ''f''), (True, Some ''e''), (True, None)]"]
  from t obtain idxs h'
    where x: "htab_hash_seq (map (\<lambda>s. (True, Some s)) [''e'', ''f'', ''g'', ''h'', ''i''])
        (Some h) = Inr (idxs, Some h')"
      "\<forall>ok. htab_hash_seq (map (\<lambda>s. (ok, Some s)) [''e'', ''f'', ''g'', ''h'', ''i''])
        (Some h') = Inr (idxs, Some h')"
      "\<forall>ok. htab_hash ok (Some ''j'') (Some h') = Inr (0, Some h')"
    by blast
  from x(1) ins have e: "idxs = [1, 2, 3, 4, 5]" "h' = H" by simp_all
  from x(2) e have look: "htab_hash_seq (map (\<lambda>s. (False, Some s)) [''e'', ''f'', ''g'', ''h'', ''i''])
        (Some H) = Inr ([1, 2, 3, 4, 5], Some H)"
    by blast
  from x(3) e have more: "htab_hash False (Some ''j'') (Some H) = Inr (0, Some H)" by blast
  from t run have "filled r \<le> size_htab r" by blast
  then have y: "filled r \<le> 5" by (simp add: r_def)
  from t n1 have z: "\<exists>idxs r. htab_hash_seq [(False, Some ''f''), (True, Some ''e''), (True, None)]
      (Some h) = Inr (idxs, Some r) \<and> filled r \<le> size_htab r"
    by blast
  from ins look more y z show ?thesis
    unfolding h_def H_def r_def by blast
qed

subsection \<open>Looking a key up twice\<close>

text \<open>
  C5, as amended. For every live table of capacity at least 3 and every string: the
  first of two calls in a row, its allocation succeeding, returns an index, which is at
  most the capacity, and not 0 when the table was not full; the second call returns the
  same index and changes nothing, whatever its allocation would do; the first call
  leaves the capacity as it was and \<open>filled\<close> as it was or, on a table that was not
  full, one higher.
\<close>

theorem htab_hash_twice:
  assumes "htab_wf h"
  shows "\<exists>i h'. htab_hash True (Some s) (Some h) = Inr (i, Some h')
     \<and> (\<forall>ok. htab_hash ok (Some s) (Some h') = Inr (i, Some h'))
     \<and> size_htab h' = size_htab h
     \<and> (filled h' = filled h \<or> filled h < size_htab h \<and> filled h' = filled h + 1)
     \<and> unat i \<le> unat (size_htab h)
     \<and> (filled h < size_htab h \<longrightarrow> i \<noteq> 0)"
proof -
  from htab_hash_total [OF assms, of True s] obtain i h'
    where r: "htab_hash True (Some s) (Some h) = Inr (i, Some h')"
      "unat i \<le> unat (size_htab h)" "filled h < size_htab h \<longrightarrow> i \<noteq> 0"
    by auto
  from htab_hash_again(1) [OF r(1)]
  have a: "\<forall>ok. htab_hash ok (Some s) (Some h') = Inr (i, Some h')" by blast
  from htab_hash_again(2) [OF r(1)]
  have b: "size_htab h' = size_htab h"
    "filled h' = filled h \<or> filled h < size_htab h \<and> filled h' = filled h + 1"
    by auto
  from r a b show ?thesis by blast
qed

text \<open>The instance at the fresh table of capacity 11 and the key \<^verbatim>\<open>apple\<close>.\<close>

theorem htab_hash_twice_witness:
  "htab_wf \<lparr>table = Some (replicate 12 empty_entry), size_htab = 11, filled = 0\<rparr>
   \<and> htab_hash True (Some ''apple'')
     (Some \<lparr>table = Some (replicate 12 empty_entry), size_htab = 11, filled = 0\<rparr>) =
   Inr (4, Some \<lparr>table = Some ((replicate 12 empty_entry)[4 := \<lparr>used = 4, str = Some ''apple''\<rparr>]),
            size_htab = 11, filled = 1\<rparr>)
   \<and> htab_hash False (Some ''apple'')
     (Some \<lparr>table = Some ((replicate 12 empty_entry)[4 := \<lparr>used = 4, str = Some ''apple''\<rparr>]),
            size_htab = 11, filled = 1\<rparr>) =
   Inr (4, Some \<lparr>table = Some ((replicate 12 empty_entry)[4 := \<lparr>used = 4, str = Some ''apple''\<rparr>]),
            size_htab = 11, filled = 1\<rparr>)"
proof -
  define h where "h = \<lparr>table = Some (replicate 12 empty_entry), size_htab = 11, filled = 0\<rparr>"
  define h1 where "h1 = \<lparr>table = Some ((replicate 12 empty_entry)[4 := \<lparr>used = 4, str = Some ''apple''\<rparr>]),
            size_htab = 11, filled = 1\<rparr>"
  have first: "htab_hash True (Some ''apple'') (Some h) = Inr (4, Some h1)"
    by (simp add: h_def h1_def htab_eval)
  have wf: "htab_wf h" by (simp add: h_def htab_wf_def)
  from htab_hash_twice [OF wf, of "''apple''"] obtain i h'
    where t: "htab_hash True (Some ''apple'') (Some h) = Inr (i, Some h')"
      "\<forall>ok. htab_hash ok (Some ''apple'') (Some h') = Inr (i, Some h')"
    by blast
  from t(1) first have "i = 4" "h' = h1" by simp_all
  with t(2) have second: "htab_hash False (Some ''apple'') (Some h1) = Inr (4, Some h1)"
    by blast
  from wf first second show ?thesis unfolding h_def h1_def by blast
qed

text \<open>
  C5 as stated fails when the allocation of the first call fails: on the fresh table of
  capacity 11 the first call for \<^verbatim>\<open>apple\<close> returns 0, the second returns 10, and
  \<open>filled\<close> goes from 0 to 1 in the second call. It also fails on a table of capacity
  1: after Create(1) and two calls whose allocations fail, the table is live and not
  full, and a call for \<^verbatim>\<open>c\<close> reads the slot array at index \<open>2\<^sup>3\<^sup>2 - 1\<close>.
\<close>

theorem htab_hash_twice_counterexample:
  "htab_hash False (Some ''apple'')
     (Some \<lparr>table = Some (replicate 12 empty_entry), size_htab = 11, filled = 0\<rparr>) =
   Inr (0, Some \<lparr>table = Some ((replicate 12 empty_entry)[4 := \<lparr>used = 4, str = None\<rparr>]),
                  size_htab = 11, filled = 0\<rparr>)
   \<and> htab_hash True (Some ''apple'')
     (Some \<lparr>table = Some ((replicate 12 empty_entry)[4 := \<lparr>used = 4, str = None\<rparr>]),
                  size_htab = 11, filled = 0\<rparr>) =
   Inr (10, Some \<lparr>table = Some ((replicate 12 empty_entry)
            [4 := \<lparr>used = 4, str = None\<rparr>, 10 := \<lparr>used = 4, str = Some ''apple''\<rparr>]),
                  size_htab = 11, filled = 1\<rparr>)
   \<and> htab_create True 1 (Some never_created) =
     Inr (True, Some \<lparr>table = Some (replicate 2 empty_entry), size_htab = 1, filled = 0\<rparr>)
   \<and> htab_hash_seq [(False, Some ''a''), (False, Some ''b'')]
     (Some \<lparr>table = Some (replicate 2 empty_entry), size_htab = 1, filled = 0\<rparr>) =
     Inr ([0, 0], Some \<lparr>table = Some [\<lparr>used = 1, str = None\<rparr>, \<lparr>used = 1, str = None\<rparr>],
                     size_htab = 1, filled = 0\<rparr>)
   \<and> htab_hash True (Some ''c'')
     (Some \<lparr>table = Some [\<lparr>used = 1, str = None\<rparr>, \<lparr>used = 1, str = None\<rparr>],
            size_htab = 1, filled = 0\<rparr>) = Inl OutOfBounds"
  by (simp add: htab_eval)

subsection \<open>Destroy\<close>

text \<open>
  C10. Destroy on a NULL handle or on a handle without slot array (never created, or
  destroyed) changes nothing and is no error; calling Destroy twice gives the state of
  calling it once; Destroy on a live table sets capacity and \<open>filled\<close> to zero and the
  slot array to NULL, so that Create on that handle (its allocation succeeding) is not
  refused: it succeeds, with a slot array and \<open>filled = 0\<close>.
\<close>

theorem htab_destroy_resets:
  "htab_destroy None = Inr None
   \<and> htab_destroy (Some (h\<lparr>table := None\<rparr>)) = Inr (Some (h\<lparr>table := None\<rparr>))
   \<and> (htab_destroy htab = Inr htab' \<longrightarrow> htab_destroy htab' = Inr htab')
   \<and> (table h = Some tbl \<and> length tbl = unat (size_htab h) + 1 \<longrightarrow>
        htab_destroy (Some h) = Inr (Some (h\<lparr>filled := 0, size_htab := 0, table := None\<rparr>))
        \<and> (\<exists>h'. htab_create True nel (Some (h\<lparr>filled := 0, size_htab := 0, table := None\<rparr>))
               = Inr (True, Some h')
             \<and> filled h' = 0 \<and> table h' \<noteq> None))"
proof (intro conjI impI)
  show "htab_destroy None = Inr None" by (simp add: htab_destroy_def)
  show "htab_destroy (Some (h\<lparr>table := None\<rparr>)) = Inr (Some (h\<lparr>table := None\<rparr>))"
    by (simp add: htab_destroy_def)
  show "htab_destroy htab' = Inr htab'" if "htab_destroy htab = Inr htab'"
    using that by (auto simp: htab_destroy_def split: option.splits if_splits)
next
  assume live: "table h = Some tbl \<and> length tbl = unat (size_htab h) + 1"
  have "unat (size_htab h + 1) \<le> unat (size_htab h) + 1"
    by (metis unatSuc add.commute Suc_eq_plus1 le_refl unat_0 zero_le eq_neg_iff_add_eq_0)
  with live show "htab_destroy (Some h) = Inr (Some (h\<lparr>filled := 0, size_htab := 0, table := None\<rparr>))"
    by (simp add: htab_destroy_def)
  show "\<exists>h'. htab_create True nel (Some (h\<lparr>filled := 0, size_htab := 0, table := None\<rparr>))
               = Inr (True, Some h')
             \<and> filled h' = 0 \<and> table h' \<noteq> None"
    using htab_create_succeeds [of "h\<lparr>filled := 0, size_htab := 0, table := None\<rparr>" True nel]
    by simp
qed

text \<open>The instance at the table of capacity 11 that holds \<^verbatim>\<open>apple\<close>.\<close>

theorem htab_destroy_resets_witness:
  "htab_destroy (Some \<lparr>table = Some ((replicate 12 empty_entry)
       [4 := \<lparr>used = 4, str = Some ''apple''\<rparr>]), size_htab = 11, filled = 1\<rparr>) =
     Inr (Some never_created)
   \<and> htab_destroy (Some never_created) = Inr (Some never_created)
   \<and> (\<exists>h'. htab_create True 10 (Some never_created) = Inr (True, Some h') \<and> filled h' = 0
         \<and> table h' \<noteq> None)"
proof -
  define h where "h = \<lparr>table = Some ((replicate 12 empty_entry)
       [4 := \<lparr>used = 4, str = Some ''apple''\<rparr>]), size_htab = 11, filled = 1\<rparr>"
  define tbl where "tbl = (replicate 12 empty_entry)[4 := \<lparr>used = 4, str = Some ''apple''\<rparr>]"
  have live: "table h = Some tbl \<and> length tbl = unat (size_htab h) + 1"
    by (simp add: h_def tbl_def)
  have d: "h\<lparr>filled := 0, size_htab := 0, table := None\<rparr> = never_created"
    by (simp add: h_def never_created_def)
  note t = htab_destroy_resets [of h "Some h" "Some never_created" tbl 10]
  from t live have a: "htab_destroy (Some h) = Inr (Some never_created)"
    unfolding d by blast
  with t have b: "htab_destroy (Some never_created) = Inr (Some never_created)"
    by blast
  from t live have c: "\<exists>h'. htab_create True 10 (Some never_created) = Inr (True, Some h')
      \<and> filled h' = 0 \<and> table h' \<noteq> None"
    unfolding d by blast
  from a b c show ?thesis unfolding h_def by blast
qed

subsection \<open>Invalid arguments\<close>

text \<open>
  C8. Lookup-or-Insert with a NULL key, with a NULL table handle, or with a handle whose
  slot array is NULL (never created or destroyed) returns the sentinel 0 and leaves the
  handle as it was, whatever the state of the table and the other argument are.
\<close>

theorem htab_hash_null_safe:
  "htab_hash malloc_ok None htab = Inr (0, htab)
   \<and> htab_hash malloc_ok key None = Inr (0, None)
   \<and> htab_hash malloc_ok key (Some (h\<lparr>table := None\<rparr>)) = Inr (0, Some (h\<lparr>table := None\<rparr>))"
  by (simp add: htab_hash_def split: option.splits)

subsection \<open>The scenario of the three inserts\<close>

text \<open>
  C6. Create(10) produces a table of capacity 11. Inserting \<^verbatim>\<open>apple\<close> and \<^verbatim>\<open>banana\<close>
  (allocations succeeding) returns the indices 4 and 1, distinct and not zero, and
  leaves \<open>filled = 2\<close>; inserting \<^verbatim>\<open>apple\<close> again returns 4, the index of the first
  call, and neither \<open>filled\<close> nor anything else of the table changes.
\<close>

theorem apple_banana_apple:
  "htab_create True 10 (Some never_created) =
     Inr (True, Some \<lparr>table = Some (replicate 12 empty_entry), size_htab = 11, filled = 0\<rparr>)
   \<and> htab_hash_seq [(True, Some ''apple''), (True, Some ''banana'')]
       (Some \<lparr>table = Some (replicate 12 empty_entry), size_htab = 11, filled = 0\<rparr>) =
     Inr ([4, 1], Some \<lparr>table = Some ((replicate 12 empty_entry)
            [4 := \<lparr>used = 4, str = Some ''apple''\<rparr>, 1 := \<lparr>used = 1, str = Some ''banana''\<rparr>]),
          size_htab = 11, filled = 2\<rparr>)
   \<and> htab_hash True (Some ''apple'') (Some \<lparr>table = Some ((replicate 12 empty_entry)
            [4 := \<lparr>used = 4, str = Some ''apple''\<rparr>, 1 := \<lparr>used = 1, str = Some ''banana''\<rparr>]),
          size_htab = 11, filled = 2\<rparr>) =
     Inr (4, Some \<lparr>table = Some ((replicate 12 empty_entry)
            [4 := \<lparr>used = 4, str = Some ''apple''\<rparr>, 1 := \<lparr>used = 1, str = Some ''banana''\<rparr>]),
          size_htab = 11, filled = 2\<rparr>)"
  by (simp add: htab_eval)

subsection \<open>A failed allocation\<close>

text \<open>
  C2. The claim: when the allocation of the key's copy fails, Lookup-or-Insert returns 0
  and the target slot stays unoccupied, its tag still zero. The code writes the tag
  before it calls \<^verbatim>\<open>malloc\<close> and does not take it back: on the fresh table of capacity
  11 the failed insert of \<^verbatim>\<open>apple\<close> returns 0 and leaves slot 4 with the tag 4 and no
  string; \<open>filled\<close> stays 0.
\<close>

theorem failed_malloc_leaves_tag:
  "htab_hash False (Some ''apple'')
     (Some \<lparr>table = Some (replicate 12 empty_entry), size_htab = 11, filled = 0\<rparr>) =
   Inr (0, Some \<lparr>table = Some ((replicate 12 empty_entry)[4 := \<lparr>used = 4, str = None\<rparr>]),
                  size_htab = 11, filled = 0\<rparr>)"
  by (simp add: htab_eval)

text \<open>
  C7. The claim: after every run of Create and Lookup-or-Insert calls, a slot has a tag
  that is not zero if and only if it holds a key, and the tag is the hash of that key.
  The code keeps this as long as every allocation succeeds (at a prime capacity); after
  a failed allocation it does not: on the fresh table of capacity 11, the insert of
  \<^verbatim>\<open>apple\<close> followed by the failed insert of \<^verbatim>\<open>banana\<close> leaves slot 1 with the tag 1 and
  no key.
\<close>

theorem tagged_slot_without_key:
  "htab_hash_seq [(True, Some ''apple''), (False, Some ''banana'')]
     (Some \<lparr>table = Some (replicate 12 empty_entry), size_htab = 11, filled = 0\<rparr>) =
   Inr ([4, 0], Some \<lparr>table = Some ((replicate 12 empty_entry)
          [4 := \<lparr>used = 4, str = Some ''apple''\<rparr>, 1 := \<lparr>used = 1, str = None\<rparr>]),
        size_htab = 11, filled = 1\<rparr>)"
  by (simp add: htab_eval)

text \<open>
  C3. The claim: at a prime capacity the probe sequence visits every index of
  \<open>1 .. c\<close> once before it is back at the start, the loop ends within \<open>c\<close> iterations,
  and it ends back at the start index only when \<open>filled\<close> equals the capacity. The
  sequence and the bound are as claimed; the last part fails after a failed allocation.
  On the table of Create(4), of capacity 5: the failed insert of \<^verbatim>\<open>f\<close> and the inserts of
  \<^verbatim>\<open>e\<close>, \<^verbatim>\<open>g\<close>, \<^verbatim>\<open>h\<close>, \<^verbatim>\<open>i\<close> leave all five slots tagged and \<open>filled = 4\<close>. The search
  for \<^verbatim>\<open>j\<close>, whose start index is 1, then ends back at index 1, and the insert
  overwrites the key \<^verbatim>\<open>e\<close> there.
\<close>

theorem probe_exhausted_not_full:
  "htab_create True 4 (Some never_created) =
     Inr (True, Some \<lparr>table = Some (replicate 6 empty_entry), size_htab = 5, filled = 0\<rparr>)
   \<and> htab_hash_seq [(False, Some ''f''), (True, Some ''e''), (True, Some ''g''),
                     (True, Some ''h''), (True, Some ''i'')]
       (Some \<lparr>table = Some (replicate 6 empty_entry), size_htab = 5, filled = 0\<rparr>) =
     Inr ([0, 1, 3, 4, 5],
          Some \<lparr>table = Some [empty_entry, \<lparr>used = 1, str = Some ''e''\<rparr>,
                   \<lparr>used = 2, str = None\<rparr>, \<lparr>used = 3, str = Some ''g''\<rparr>,
                   \<lparr>used = 4, str = Some ''h''\<rparr>, \<lparr>used = 1, str = Some ''i''\<rparr>],
                 size_htab = 5, filled = 4\<rparr>)
   \<and> table_hash (main_hash ''j'') 5 = 1
   \<and> htab_search [empty_entry, \<lparr>used = 1, str = Some ''e''\<rparr>,
                   \<lparr>used = 2, str = None\<rparr>, \<lparr>used = 3, str = Some ''g''\<rparr>,
                   \<lparr>used = 4, str = Some ''h''\<rparr>, \<lparr>used = 1, str = Some ''i''\<rparr>] 5 ''j'' =
     Inr (NewEntry 1)
   \<and> htab_hash True (Some ''j'')
       (Some \<lparr>table = Some [empty_entry, \<lparr>used = 1, str = Some ''e''\<rparr>,
                   \<lparr>used = 2, str = None\<rparr>, \<lparr>used = 3, str = Some ''g''\<rparr>,
                   \<lparr>used = 4, str = Some ''h''\<rparr>, \<lparr>used = 1, str = Some ''i''\<rparr>],
                 size_htab = 5, filled = 4\<rparr>) =
     Inr (1, Some \<lparr>table = Some [empty_entry, \<lparr>used = 1, str = Some ''j''\<rparr>,
                   \<lparr>used = 2, str = None\<rparr>, \<lparr>used = 3, str = Some ''g''\<rparr>,
                   \<lparr>used = 4, str = Some ''h''\<rparr>, \<lparr>used = 1, str = Some ''i''\<rparr>],
                 size_htab = 5, filled = 5\<rparr>)"
  by (simp add: htab_eval)

text \<open>
  C9. The claim: a returned index of a successful call lies in \<open>1 .. capacity\<close>, and
  the entry at index 0 is never written. The code keeps this on every table of capacity
  at least 3; on the table of Create(1), of capacity 1, it does not: after the failed
  insert of \<^verbatim>\<open>a\<close>, the insert of \<^verbatim>\<open>b\<close> stores \<^verbatim>\<open>b\<close> in slot 0 and returns the index 0.
\<close>

theorem slot_zero_written:
  "htab_create True 1 (Some never_created) =
     Inr (True, Some \<lparr>table = Some [empty_entry, empty_entry], size_htab = 1, filled = 0\<rparr>)
   \<and> htab_hash_seq [(False, Some ''a''), (True, Some ''b'')]
       (Some \<lparr>table = Some [empty_entry, empty_entry], size_htab = 1, filled = 0\<rparr>) =
     Inr ([0, 0], Some \<lparr>table = Some [\<lparr>used = 1, str = Some ''b''\<rparr>, \<lparr>used = 1, str = None\<rparr>],
                        size_htab = 1, filled = 1\<rparr>)"
  by (simp add: htab_eval)

end
